theory Spec2Isabelle
  imports Complex_Main "HOL-Library.Char_ord" "HOL-Library.List_Lexorder" "HOL-Library.Log_Nat"
begin

text \<open>
  A model of \<open>script.js\<close>, the phone-number validation page: the normalizer
  \<open>cleanPhoneNumber\<close>, the validator \<open>isValidUSNumber\<close> with its three regular
  expressions, the classifier and aggregator \<open>processSingleNumber\<close>, the batch loop
  \<open>processInBatches\<close> with cancellation, and the summary report. The page's global
  variables are a record that every function takes and returns; what the page displays
  is a trace of events; the user's clicks and the clock are an environment; numbers are
  IEEE 754 doubles.
\<close>

section \<open>Strings\<close>

text \<open>
  A JavaScript string is modelled as a \<open>char list\<close>, one \<open>char\<close> per code unit.
  \<open>\d\<close> is the class \<open>[0-9]\<close>; \<open>trim\<close> removes the white space and line
  terminators that fit in one \<open>char\<close> (TAB, LF, VT, FF, CR, SP, NBSP).
\<close>

definition isDigit :: "char \<Rightarrow> bool" where
  "isDigit c = (c \<in> set ''0123456789'')"

definition isSpace :: "char \<Rightarrow> bool" where
  "isSpace c = ((of_char c :: nat) \<in> set [9, 10, 11, 12, 13, 32, 160])"

definition trim :: "string \<Rightarrow> string" where
  "trim s = rev (dropWhile isSpace (rev (dropWhile isSpace s)))"

text \<open>\<open>s[i]\<close>: the code unit at index \<open>i\<close>, \<open>undefined\<close> (here \<open>None\<close>) out of range.\<close>

definition charAt :: "string \<Rightarrow> nat \<Rightarrow> char option" where
  "charAt s i = (if i < length s then Some (s ! i) else None)"

text \<open>\<open>s.substring(a, b)\<close>: both indices are clamped to the length and swapped when \<open>a > b\<close>.\<close>

definition substring :: "string \<Rightarrow> nat \<Rightarrow> nat \<Rightarrow> string" where
  "substring s a b =
     (let a' = min a (length s); b' = min b (length s)
      in take (max a' b' - min a' b') (drop (min a' b') s))"

text \<open>\<open>s.substring(a)\<close>, for an index \<open>a\<close> that is not negative.\<close>

definition substringFrom :: "string \<Rightarrow> nat \<Rightarrow> string" where
  "substringFrom s a = drop (min a (length s)) s"

definition startsWith :: "string \<Rightarrow> string \<Rightarrow> bool" where
  "startsWith s p = (take (length p) s = p)"

text \<open>\<open>content.split('\n')\<close>: the empty string gives one empty line.\<close>

fun split_newline :: "string \<Rightarrow> string list" where
  "split_newline [] = [[]]"
| "split_newline (c # cs) =
     (if c = CHR 0x0A then [] # split_newline cs
      else (case split_newline cs of
              [] \<Rightarrow> [[c]]
            | l # ls \<Rightarrow> (c # l) # ls))"

text \<open>\<open>n.toString()\<close> for a natural number \<open>n\<close>: its decimal digits.\<close>

fun toString :: "nat \<Rightarrow> string" where
  "toString n =
     (if n < 10 then [char_of (48 + n)]
      else toString (n div 10) @ [char_of (48 + n mod 10)])"

declare toString.simps [simp del]

definition padEnd :: "string \<Rightarrow> nat \<Rightarrow> string" where
  "padEnd s n = s @ replicate (n - length s) CHR '' ''"

definition padStart :: "string \<Rightarrow> nat \<Rightarrow> string" where
  "padStart s n = replicate (n - length s) CHR '' '' @ s"

section \<open>Regular expressions\<close>

text \<open>
  The fragment of JavaScript regular expressions that \<open>isValidUSNumber\<close> uses: the
  anchors \<open>^\<close> and \<open>$\<close> (no multiline flag), a literal character, \<open>\d\<close>, one
  capture group, the backreference \<open>\1\<close>, a counted repetition \<open>r{n}\<close> and
  concatenation. A match state is the position, the rest of the input and what group 1
  captured; the matcher returns every state a match can end in.
\<close>

datatype regex =
    Bol
  | Eol
  | Lit char
  | Digit
  | Group regex
  | Backref
  | Rep nat regex
  | Cat regex regex

type_synonym mstate = "nat \<times> string \<times> string option"

primrec iter :: "nat \<Rightarrow> (mstate \<Rightarrow> mstate list) \<Rightarrow> mstate \<Rightarrow> mstate list" where
  "iter 0 f st = [st]"
| "iter (Suc n) f st = concat (map (iter n f) (f st))"

primrec matchR :: "regex \<Rightarrow> mstate \<Rightarrow> mstate list" where
  "matchR Bol = (\<lambda>(p, rest, cap). if p = 0 then [(p, rest, cap)] else [])"
| "matchR Eol = (\<lambda>(p, rest, cap). if rest = [] then [(p, rest, cap)] else [])"
| "matchR (Lit c) = (\<lambda>(p, rest, cap).
     case rest of [] \<Rightarrow> [] | x # xs \<Rightarrow> if x = c then [(Suc p, xs, cap)] else [])"
| "matchR Digit = (\<lambda>(p, rest, cap).
     case rest of [] \<Rightarrow> [] | x # xs \<Rightarrow> if isDigit x then [(Suc p, xs, cap)] else [])"
| "matchR (Group r) = (\<lambda>(p, rest, cap).
     map (\<lambda>(p', rest', cap'). (p', rest', Some (take (p' - p) rest)))
       (matchR r (p, rest, cap)))"
| "matchR Backref = (\<lambda>(p, rest, cap).
     case cap of
       None \<Rightarrow> [(p, rest, cap)]
     | Some g \<Rightarrow>
         if take (length g) rest = g
         then [(p + length g, drop (length g) rest, cap)] else [])"
| "matchR (Rep n r) = iter n (matchR r)"
| "matchR (Cat r1 r2) = (\<lambda>st. concat (map (matchR r2) (matchR r1 st)))"

text \<open>
  \<open>pattern.test(s)\<close> for a pattern without the global or sticky flag: a match is
  tried from every start index, group 1 unset at each start.
\<close>

definition regex_test :: "regex \<Rightarrow> string \<Rightarrow> bool" where
  "regex_test r s =
     list_ex (\<lambda>i. matchR r (i, drop i s, None) \<noteq> []) [0..<Suc (length s)]"

definition lits :: "string \<Rightarrow> regex \<Rightarrow> regex" where
  "lits cs r = foldr (\<lambda>c r'. Cat (Lit c) r') cs r"

text \<open>\<open>/^(\d)\1{9}$/\<close>, \<open>/^1234567890$/\<close> and \<open>/^(\d{3})\1{2}$/\<close>.\<close>

definition allSameDigits :: regex where
  "allSameDigits = Cat Bol (Cat (Group Digit) (Cat (Rep 9 Backref) Eol))"

definition sequential :: regex where
  "sequential = Cat Bol (lits ''1234567890'' Eol)"

definition repeatedPattern :: regex where
  "repeatedPattern = Cat Bol (Cat (Group (Rep 3 Digit)) (Cat (Rep 2 Backref) Eol))"

definition invalidPatterns :: "regex list" where
  "invalidPatterns = [allSameDigits, sequential, repeatedPattern]"

section \<open>Normalizer and validator\<close>

text \<open>
  \<open>isValidAreaCode\<close> and \<open>getStateFromAreaCode\<close> are called by the script but are
  defined in another file of the page; they are parameters of the model.
\<close>

record directory =
  isValidAreaCode :: "string \<Rightarrow> bool"
  getStateFromAreaCode :: "string \<Rightarrow> string"

text \<open>\<open>number.replace(/\D/g, '')\<close> keeps exactly the digits.\<close>

definition cleanPhoneNumber :: "string \<Rightarrow> bool \<Rightarrow> string" where
  "cleanPhoneNumber number removePlusOne =
     (let cleaned0 = filter isDigit number;
          cleaned1 =
            (if removePlusOne \<and> length cleaned0 = 11 \<and> startsWith cleaned0 ''1''
             then substringFrom cleaned0 1 else cleaned0)
      in if length cleaned1 > 10
         then substringFrom cleaned1 (length cleaned1 - 10) else cleaned1)"

definition isValidUSNumber :: "(string \<Rightarrow> bool) \<Rightarrow> string \<Rightarrow> bool" where
  "isValidUSNumber validAreaCode number =
     (if length number \<noteq> 10 then False
      else if charAt number 0 = Some CHR ''0'' \<or> charAt number 0 = Some CHR ''1'' then False
      else
        let areaCode = substring number 0 3 in
        if \<not> validAreaCode areaCode then False
        else
          let exchangeCode = substring number 3 6 in
          if charAt exchangeCode 0 = Some CHR ''0'' \<or> charAt exchangeCode 0 = Some CHR ''1''
          then False
          else if list_ex (\<lambda>pattern. regex_test pattern number) invalidPatterns then False
          else True)"

text \<open>The validator with the \<open>/^1234567890$/\<close> entry taken out of the pattern list.\<close>

definition isValidUSNumber_noSequential :: "(string \<Rightarrow> bool) \<Rightarrow> string \<Rightarrow> bool" where
  "isValidUSNumber_noSequential validAreaCode number =
     (if length number \<noteq> 10 then False
      else if charAt number 0 = Some CHR ''0'' \<or> charAt number 0 = Some CHR ''1'' then False
      else
        let areaCode = substring number 0 3 in
        if \<not> validAreaCode areaCode then False
        else
          let exchangeCode = substring number 3 6 in
          if charAt exchangeCode 0 = Some CHR ''0'' \<or> charAt exchangeCode 0 = Some CHR ''1''
          then False
          else if list_ex (\<lambda>pattern. regex_test pattern number)
                    [allSameDigits, repeatedPattern] then False
          else True)"

section \<open>Numbers\<close>

text \<open>
  A JavaScript number is an IEEE 754 double: here the exact rational value of a finite
  double, \<open>Infinity\<close>, \<open>-Infinity\<close> or \<open>NaN\<close>; zero is \<open>+0\<close>. \<open>round64\<close> rounds a
  rational to the nearest double, ties to the even significand: 53 significant bits down
  to the exponent of the subnormals, \<open>Infinity\<close> from \<open>2^1024\<close> on. Division and
  multiplication round the exact result; by zero, by \<open>Infinity\<close> and on \<open>NaN\<close> they
  follow IEEE 754.
\<close>

datatype jsnum = Fin rat | PosInf | NegInf | NaN

definition pow2 :: "int \<Rightarrow> rat" where
  "pow2 e = 2 powi e"

text \<open>The exponent of a positive rational: \<open>2 ^ ilog2 x \<le> x < 2 ^ (ilog2 x + 1)\<close>.\<close>

definition ilog2 :: "rat \<Rightarrow> int" where
  "ilog2 x =
     (case quotient_of x of (a, b) \<Rightarrow>
        let d = bitlen a - bitlen b in if pow2 d \<le> x then d else d - 1)"

definition roundHalfEven :: "rat \<Rightarrow> int" where
  "roundHalfEven y =
     (let f = \<lfloor>y\<rfloor>; r = y - of_int f
      in if r < 1 / 2 then f else if 1 / 2 < r then f + 1 else if even f then f else f + 1)"

definition roundPos :: "rat \<Rightarrow> jsnum" where
  "roundPos x =
     (let l = ilog2 x;
          e = max (l - 52) (- 1074);
          m = roundHalfEven (x / pow2 e);
          r = of_int m * pow2 e
      in if 1023 \<le> l then (if pow2 1024 \<le> r then PosInf else Fin r) else Fin r)"

definition jsneg :: "jsnum \<Rightarrow> jsnum" where
  "jsneg x = (case x of Fin a \<Rightarrow> Fin (- a) | PosInf \<Rightarrow> NegInf | NegInf \<Rightarrow> PosInf | NaN \<Rightarrow> NaN)"

definition round64 :: "rat \<Rightarrow> jsnum" where
  "round64 x = (if x = 0 then Fin 0 else if 0 < x then roundPos x else jsneg (roundPos (- x)))"

fun jsdiv :: "jsnum \<Rightarrow> jsnum \<Rightarrow> jsnum" where
  "jsdiv NaN y = NaN"
| "jsdiv x NaN = NaN"
| "jsdiv (Fin a) (Fin b) =
     (if b \<noteq> 0 then round64 (a / b)
      else if a = 0 then NaN
      else if 0 < a then PosInf else NegInf)"
| "jsdiv (Fin a) PosInf = Fin 0"
| "jsdiv (Fin a) NegInf = Fin 0"
| "jsdiv PosInf (Fin b) = (if 0 \<le> b then PosInf else NegInf)"
| "jsdiv NegInf (Fin b) = (if 0 \<le> b then NegInf else PosInf)"
| "jsdiv PosInf PosInf = NaN"
| "jsdiv PosInf NegInf = NaN"
| "jsdiv NegInf PosInf = NaN"
| "jsdiv NegInf NegInf = NaN"

fun jsmul :: "jsnum \<Rightarrow> jsnum \<Rightarrow> jsnum" where
  "jsmul NaN y = NaN"
| "jsmul x NaN = NaN"
| "jsmul (Fin a) (Fin b) = round64 (a * b)"
| "jsmul (Fin a) PosInf = (if a = 0 then NaN else if 0 < a then PosInf else NegInf)"
| "jsmul (Fin a) NegInf = (if a = 0 then NaN else if 0 < a then NegInf else PosInf)"
| "jsmul PosInf (Fin b) = (if b = 0 then NaN else if 0 < b then PosInf else NegInf)"
| "jsmul NegInf (Fin b) = (if b = 0 then NaN else if 0 < b then NegInf else PosInf)"
| "jsmul PosInf PosInf = PosInf"
| "jsmul PosInf NegInf = NegInf"
| "jsmul NegInf PosInf = NegInf"
| "jsmul NegInf NegInf = PosInf"

text \<open>\<open>x < y\<close>: false as soon as one side is \<open>NaN\<close>.\<close>

fun jslt :: "jsnum \<Rightarrow> jsnum \<Rightarrow> bool" where
  "jslt (Fin a) (Fin b) = (a < b)"
| "jslt (Fin a) PosInf = True"
| "jslt NegInf (Fin b) = True"
| "jslt NegInf PosInf = True"
| "jslt x y = False"

text \<open>\<open>Math.ceil\<close> and \<open>Math.round\<close> (halves go up); both are exact on a double.\<close>

fun jsceil :: "jsnum \<Rightarrow> jsnum" where
  "jsceil (Fin a) = Fin (of_int \<lceil>a\<rceil>)"
| "jsceil x = x"

fun jsround :: "jsnum \<Rightarrow> jsnum" where
  "jsround (Fin a) = Fin (of_int \<lfloor>a + 1 / 2\<rfloor>)"
| "jsround x = x"

text \<open>
  \<open>x.toFixed(1)\<close>: the integer \<open>n\<close> nearest to ten times the exact value (the larger one
  of two), printed with a point before its last digit. Values from \<open>10^21\<close> on are
  printed in exponent notation by JavaScript and in plain digits here; the report only
  prints quotients of array lengths, which are below \<open>2^32\<close>.
\<close>

definition toFixed1 :: "jsnum \<Rightarrow> string" where
  "toFixed1 x =
     (case x of
        NaN \<Rightarrow> ''NaN''
      | PosInf \<Rightarrow> ''Infinity''
      | NegInf \<Rightarrow> ''-Infinity''
      | Fin a \<Rightarrow>
          let n = nat \<lfloor>\<bar>a\<bar> * 10 + 1 / 2\<rfloor>
          in (if a < 0 then ''-'' else []) @ toString (n div 10) @ ''.'' @ toString (n mod 10))"

text \<open>
  \<open>parseInt\<close> of the batch-size field gives an integer or \<open>NaN\<close> (here \<open>None\<close>).
\<close>

definition toNum :: "int option \<Rightarrow> jsnum" where
  "toNum v = (case v of None \<Rightarrow> NaN | Some b \<Rightarrow> Fin (of_int b))"

text \<open>
  \<open>xs.slice(start, end)\<close> for integer arguments: a negative index counts from the end,
  both are clamped to the length.
\<close>

definition slice :: "'a list \<Rightarrow> int \<Rightarrow> int \<Rightarrow> 'a list" where
  "slice xs start fin =
     (let len = int (length xs);
          k = (if start < 0 then max (len + start) 0 else min start len);
          final = (if fin < 0 then max (len + fin) 0 else min fin len)
      in take (nat (max (final - k) 0)) (drop (nat k) xs))"

section \<open>Aggregate state\<close>

datatype status = Valid | Invalid

record phone_result =
  original :: string
  cleaned :: string
  areaCode :: "string option"
  state :: "string option"
  status :: status

text \<open>\<open>states\<close> is a JavaScript \<open>Set\<close>: its members in insertion order, no duplicates.\<close>

record stats_rec =
  total :: nat
  valid :: nat
  invalid :: nat
  states :: "string list"

text \<open>
  \<open>byState\<close> is an object used as a dictionary: its keys in insertion order (the
  state labels are taken to be ordinary property names, not array indices).
\<close>

record results_rec =
  valid :: "phone_result list"
  invalid :: "phone_result list"
  byState :: "(string \<times> phone_result list) list"
  stats :: stats_rec

record options =
  removePlusOne :: bool
  filterInvalid :: bool
  groupByState :: bool
  batchSize :: "int option"

text \<open>
  What the page shows is kept as a trace of events: a progress update (percentage,
  processed count, rounded seconds remaining), a speed update, the completion report of
  \<open>finishProcessing\<close> and the alert of \<open>cancelProcessing\<close>.
\<close>

datatype event =
    Progress jsnum nat jsnum
  | SpeedUpdate
  | Finished
  | CancelAlert

text \<open>
  The global variables of the script. \<open>blankSkipped\<close> is a ghost counter: the script
  keeps no count of the lines it skips, the model counts them where \<open>processBatch\<close>
  executes \<open>continue\<close>. The two clock variables are left to the environment.
\<close>

record gstate =
  processingActive :: bool
  processingCancelled :: bool
  currentFileContent :: "string option"
  processedResults :: results_rec
  processedCount :: nat
  blankSkipped :: nat
  events :: "event list"

definition emptyResults :: results_rec where
  "emptyResults =
     \<lparr>results_rec.valid = [], results_rec.invalid = [], byState = [],
      stats = \<lparr>total = 0, stats_rec.valid = 0, stats_rec.invalid = 0, states = []\<rparr>\<rparr>"

definition resetProcessingState :: "gstate \<Rightarrow> gstate" where
  "resetProcessingState s =
     s\<lparr>processedResults := emptyResults, processedCount := 0, blankSkipped := 0\<rparr>"

definition setAdd :: "string list \<Rightarrow> string \<Rightarrow> string list" where
  "setAdd xs x = (if x \<in> set xs then xs else xs @ [x])"

text \<open>
  \<open>if (!byState[state]) byState[state] = []; byState[state].push(result)\<close>: a new key
  goes last, an existing key keeps its place.
\<close>

definition byStatePush ::
  "(string \<times> phone_result list) list \<Rightarrow> string \<Rightarrow> phone_result
    \<Rightarrow> (string \<times> phone_result list) list" where
  "byStatePush m k r =
     (case map_of m k of
        None \<Rightarrow> m @ [(k, [r])]
      | Some _ \<Rightarrow> map (\<lambda>(k', rs). if k' = k then (k', rs @ [r]) else (k', rs)) m)"

section \<open>Classifier and aggregator\<close>

definition processSingleNumber :: "directory \<Rightarrow> string \<Rightarrow> options \<Rightarrow> gstate \<Rightarrow> gstate" where
  "processSingleNumber dir rawNumber opts s =
     (let cleanedNumber = cleanPhoneNumber rawNumber (removePlusOne opts);
          pr = processedResults s
      in if isValidUSNumber (isValidAreaCode dir) cleanedNumber then
           let code = substring cleanedNumber 0 3;
               label = getStateFromAreaCode dir code;
               result = \<lparr>original = rawNumber, cleaned = cleanedNumber,
                         areaCode = Some code, state = Some label, status = Valid\<rparr>;
               st = (stats pr)\<lparr>stats_rec.valid := stats_rec.valid (stats pr) + 1,
                                states := setAdd (states (stats pr)) label\<rparr>;
               pr1 = pr\<lparr>results_rec.valid := results_rec.valid pr @ [result], stats := st\<rparr>;
               pr2 = (if groupByState opts
                      then pr1\<lparr>byState := byStatePush (byState pr1) label result\<rparr>
                      else pr1)
           in s\<lparr>processedResults := pr2\<rparr>
         else
           let result = \<lparr>original = rawNumber, cleaned = cleanedNumber,
                         areaCode = None, state = None, status = Invalid\<rparr>;
               st = (stats pr)\<lparr>stats_rec.invalid := stats_rec.invalid (stats pr) + 1\<rparr>
           in s\<lparr>processedResults :=
                  pr\<lparr>results_rec.invalid := results_rec.invalid pr @ [result], stats := st\<rparr>\<rparr>)"

section \<open>Progress display\<close>

text \<open>
  \<open>(total - processed) / (processed / elapsed)\<close>, as \<open>updateProgressUI\<close> computes it:
  two divisions of doubles. \<open>elapsed\<close> is the double \<open>(performance.now() - startTime) / 1000\<close>.
\<close>

definition remainingSeconds :: "nat \<Rightarrow> nat \<Rightarrow> rat \<Rightarrow> jsnum" where
  "remainingSeconds tot processed elapsed =
     jsdiv (Fin (of_nat tot - of_nat processed)) (jsdiv (Fin (of_nat processed)) (Fin elapsed))"

definition updateProgressUI :: "rat \<Rightarrow> jsnum \<Rightarrow> nat \<Rightarrow> gstate \<Rightarrow> gstate" where
  "updateProgressUI elapsed progress processed s =
     (let remaining = remainingSeconds (total (stats (processedResults s))) processed elapsed
      in s\<lparr>events := events s @ [Progress progress processed (jsround remaining)]\<rparr>)"

definition updateProcessingSpeed :: "gstate \<Rightarrow> gstate" where
  "updateProcessingSpeed s = s\<lparr>events := events s @ [SpeedUpdate]\<rparr>"

definition finishProcessing :: "gstate \<Rightarrow> gstate" where
  "finishProcessing s = s\<lparr>processingActive := False, events := events s @ [Finished]\<rparr>"

definition cancelProcessing :: "gstate \<Rightarrow> gstate" where
  "cancelProcessing s =
     s\<lparr>processingCancelled := True, processingActive := False,
       events := events s @ [CancelAlert]\<rparr>"

section \<open>Batch scheduler\<close>

fun processBatch :: "directory \<Rightarrow> string list \<Rightarrow> options \<Rightarrow> gstate \<Rightarrow> gstate" where
  "processBatch dir [] opts s = s"
| "processBatch dir (l # ls) opts s =
     (if processingCancelled s then s
      else
        let line = trim l in
        if line = [] then processBatch dir ls opts (s\<lparr>blankSkipped := blankSkipped s + 1\<rparr>)
        else
          let s1 = processSingleNumber dir line opts s;
              s2 = s1\<lparr>processedCount := processedCount s1 + 1\<rparr>;
              s3 = (if processedCount s2 mod 1000 = 0 then updateProcessingSpeed s2 else s2)
          in processBatch dir ls opts s3)"

text \<open>
  \<open>lines.slice(startIdx, endIdx)\<close>; with a \<open>NaN\<close> batch size both indices are \<open>NaN\<close>.
  The indices are integers below \<open>2^53\<close> while the loop runs, and exact.
\<close>

definition batchOf :: "string list \<Rightarrow> int option \<Rightarrow> nat \<Rightarrow> string list" where
  "batchOf lns bs i =
     (case bs of
        None \<Rightarrow> slice lns 0 0
      | Some b \<Rightarrow>
          let startIdx = int i * b;
              endIdx = min (startIdx + b) (int (length lns))
          in slice lns startIdx endIdx)"

text \<open>
  A call of \<open>processInBatches\<close> that is suspended at
  \<open>await new Promise(resolve => setTimeout(resolve, 0))\<close>: its local variables
  \<open>lines\<close>, \<open>options\<close>, \<open>totalBatches\<close> and \<open>batchIndex\<close>.
\<close>

record loop =
  loopLines :: "string list"
  loopOptions :: options
  totalBatches :: jsnum
  batchIndex :: nat

text \<open>
  \<open>processInBatches\<close> from the head of its \<open>for\<close> loop to its next suspension, where it
  returns the state and the suspended call, or to its end, where it has called
  \<open>finishProcessing\<close>. The argument \<open>elapsed\<close> is the number of seconds since
  \<open>startTime\<close> that \<open>updateProgressUI\<close> computes from the clock.
\<close>

definition processInBatches :: "directory \<Rightarrow> rat \<Rightarrow> loop \<Rightarrow> gstate \<Rightarrow> gstate \<times> loop option" where
  "processInBatches dir elapsed l s =
     (if jslt (Fin (of_nat (batchIndex l))) (totalBatches l) then
        (if processingCancelled s then (finishProcessing s, None)
         else
           let batch = batchOf (loopLines l) (batchSize (loopOptions l)) (batchIndex l);
               s1 = processBatch dir batch (loopOptions l) s;
               progress =
                 jsmul (jsdiv (Fin (of_nat (batchIndex l + 1))) (totalBatches l)) (Fin 100);
               s2 = updateProgressUI elapsed progress (processedCount s1) s1
           in (s2, Some (l\<lparr>batchIndex := batchIndex l + 1\<rparr>)))
      else (finishProcessing s, None))"

text \<open>
  One call of \<open>startProcessing\<close>, up to the first suspension of the loop it starts; the
  options are what the page's form holds at the call.
\<close>

definition startProcessingCall ::
  "directory \<Rightarrow> rat \<Rightarrow> options \<Rightarrow> gstate \<Rightarrow> gstate \<times> loop option" where
  "startProcessingCall dir elapsed options s =
     (case currentFileContent s of
        None \<Rightarrow> (s, None)
      | Some content \<Rightarrow>
          if content = [] \<or> processingActive s then (s, None)
          else
            let s1 = resetProcessingState
                       (s\<lparr>processingActive := True, processingCancelled := False\<rparr>);
                lns = split_newline content;
                pr = processedResults s1;
                s2 = s1\<lparr>processedResults := pr\<lparr>stats := (stats pr)\<lparr>total := length lns\<rparr>\<rparr>\<rparr>;
                l = \<lparr>loopLines = lns, loopOptions = options,
                     totalBatches =
                       jsceil (jsdiv (Fin (of_nat (length lns))) (toNum (batchSize options))),
                     batchIndex = 0\<rparr>
            in processInBatches dir elapsed l s2)"

text \<open>
  What happens on the page while loops are suspended: a click on Cancel runs
  \<open>cancelProcessing\<close>, a click on Start runs \<open>startProcessing\<close> with the options of the
  form (and the seconds its first progress update shows), and a file that has been
  chosen or dropped arrives (\<open>reader.onload\<close> assigns its text to
  \<open>currentFileContent\<close>). A click is taken to reach its handler whenever it is made;
  \<open>startProcessing\<close> itself ignores it while a run is active. A loop that a click starts
  is suspended behind the loops that already are.
\<close>

datatype action = ClickCancel | ClickStart options rat | FileLoaded string

definition click ::
  "directory \<Rightarrow> action \<Rightarrow> gstate \<times> loop list \<Rightarrow> gstate \<times> loop list" where
  "click dir a sq =
     (case sq of (s, q) \<Rightarrow>
        (case a of
           ClickCancel \<Rightarrow> (cancelProcessing s, q)
         | ClickStart options elapsed \<Rightarrow>
             (case startProcessingCall dir elapsed options s of
                (s', None) \<Rightarrow> (s', q)
              | (s', Some l) \<Rightarrow> (s', q @ [l]))
         | FileLoaded content \<Rightarrow> (s\<lparr>currentFileContent := Some content\<rparr>, q)))"

definition clicks ::
  "directory \<Rightarrow> action list \<Rightarrow> gstate \<times> loop list \<Rightarrow> gstate \<times> loop list" where
  "clicks dir as sq = foldl (\<lambda>sq' a. click dir a sq') sq as"

text \<open>
  The environment of a run: what happens during the \<open>k\<close>-th suspension, in order,
  and the seconds elapsed at the \<open>k\<close>-th progress update.
\<close>

record env =
  actionsAt :: "nat \<Rightarrow> action list"
  elapsedAt :: "nat \<Rightarrow> rat"

text \<open>
  The host's event loop over the suspended calls, in the order of their timers: the
  actions of the suspension, then the first suspended call resumes and, if it suspends
  again, queues behind the others. It ends when no call is suspended. It need not end (a
  total of \<open>Infinity\<close> batches), so it is a partial function: \<open>None\<close> is a run that
  never ends.
\<close>

partial_function (option) eventLoop ::
  "directory \<Rightarrow> env \<Rightarrow> nat \<Rightarrow> loop list \<Rightarrow> gstate \<Rightarrow> gstate option" where
  "eventLoop dir e k q s =
     (case q of
        [] \<Rightarrow> Some s
      | l # rest \<Rightarrow>
          (case clicks dir (actionsAt e k) (s, rest) of
             (s1, q1) \<Rightarrow>
               (case processInBatches dir (elapsedAt e (Suc k)) l s1 of
                  (s2, None) \<Rightarrow> eventLoop dir e (Suc k) q1 s2
                | (s2, Some l') \<Rightarrow> eventLoop dir e (Suc k) (q1 @ [l']) s2)))"

declare eventLoop.simps [code]

text \<open>
  \<open>startProcessing\<close> with the run it starts, followed under the environment \<open>e\<close> until
  no loop is suspended.
\<close>

definition startProcessing ::
  "directory \<Rightarrow> env \<Rightarrow> options \<Rightarrow> gstate \<Rightarrow> gstate option" where
  "startProcessing dir e options s =
     (case startProcessingCall dir (elapsedAt e 0) options s of
        (s', None) \<Rightarrow> Some s'
      | (s', Some l) \<Rightarrow> eventLoop dir e 0 [l] s')"

text \<open>
  A list of actions restarts the page when a click on Start follows a click on Cancel
  within it: the new run then begins while the cancelled loop is still suspended.
\<close>

definition isStart :: "action \<Rightarrow> bool" where
  "isStart a =
     (case a of ClickCancel \<Rightarrow> False | ClickStart options elapsed \<Rightarrow> True
      | FileLoaded content \<Rightarrow> False)"

fun restarts :: "action list \<Rightarrow> bool" where
  "restarts [] = False"
| "restarts (ClickCancel # as) = list_ex isStart as"
| "restarts (ClickStart options elapsed # as) = restarts as"
| "restarts (FileLoaded content # as) = restarts as"

section \<open>Summary report\<close>

text \<open>
  \<open>Object.entries(byState).sort((a, b) => b[1].length - a[1].length)\<close>: the entries
  come in insertion order and \<open>Array.prototype.sort\<close> is stable (ECMAScript 2019), so
  the result is the stable sort by the negated length.
\<close>

definition sortedStates ::
  "(string \<times> phone_result list) list \<Rightarrow> (string \<times> phone_result list) list" where
  "sortedStates m = sort_key (\<lambda>(label, numbers). - int (length numbers)) m"

text \<open>\<open>(numbers.length / processedResults.stats.valid * 100).toFixed(1)\<close>.\<close>

definition percentage :: "nat \<Rightarrow> nat \<Rightarrow> string" where
  "percentage count validTotal =
     toFixed1 (jsmul (jsdiv (Fin (of_nat count)) (Fin (of_nat validTotal))) (Fin 100))"

definition stateLine :: "nat \<Rightarrow> string \<times> phone_result list \<Rightarrow> string" where
  "stateLine validTotal entry =
     (case entry of (label, numbers) \<Rightarrow>
        padEnd label 20 @ '': '' @ padStart (toString (length numbers)) 8
          @ '' ('' @ percentage (length numbers) validTotal @ ''%)'' @ [CHR 0x0A])"

definition stateLines :: "results_rec \<Rightarrow> string list" where
  "stateLines pr = map (stateLine (stats_rec.valid (stats pr))) (sortedStates (byState pr))"

text \<open>The report; \<open>generated\<close> is the text of \<open>new Date().toLocaleString()\<close>.\<close>

definition generateSummaryReport :: "string \<Rightarrow> results_rec \<Rightarrow> string" where
  "generateSummaryReport generated pr =
     ''PHONE NUMBER PROCESSING REPORT'' @ [CHR 0x0A]
     @ ''==============================='' @ [CHR 0x0A]
     @ ''Generated: '' @ generated @ [CHR 0x0A, CHR 0x0A]
     @ ''Total Numbers Processed: '' @ toString (total (stats pr)) @ [CHR 0x0A]
     @ ''Valid US Numbers: '' @ toString (stats_rec.valid (stats pr)) @ [CHR 0x0A]
     @ ''Invalid Numbers: '' @ toString (stats_rec.invalid (stats pr)) @ [CHR 0x0A]
     @ ''States Found: '' @ toString (length (states (stats pr))) @ [CHR 0x0A, CHR 0x0A]
     @ ''DISTRIBUTION BY STATE:'' @ [CHR 0x0A]
     @ ''====================='' @ [CHR 0x0A]
     @ concat (stateLines pr)"

section \<open>Accounting\<close>

text \<open>
  The lines a run has accounted for: the valid and the invalid records it has counted and
  the blank lines it has skipped; and the line total it recorded at its start.
\<close>

definition accounted :: "gstate \<Rightarrow> nat" where
  "accounted s =
     stats_rec.valid (stats (processedResults s))
       + stats_rec.invalid (stats (processedResults s)) + blankSkipped s"

definition statsTotal :: "gstate \<Rightarrow> nat" where
  "statsTotal s = total (stats (processedResults s))"

text \<open>
  The state in which \<open>startProcessing\<close> calls \<open>processInBatches\<close>: flags set,
  aggregate reset, \<open>stats.total\<close> set to the number of lines.
\<close>

definition initialResults :: "nat \<Rightarrow> results_rec" where
  "initialResults n = emptyResults\<lparr>stats := (stats emptyResults)\<lparr>total := n\<rparr>\<rparr>"

definition initialised :: "string \<Rightarrow> gstate \<Rightarrow> gstate" where
  "initialised content s =
     (resetProcessingState (s\<lparr>processingActive := True, processingCancelled := False\<rparr>))
       \<lparr>processedResults := initialResults (length (split_newline content))\<rparr>"

text \<open>Two states with the same aggregate and counters.\<close>

definition sameAggregate :: "gstate \<Rightarrow> gstate \<Rightarrow> bool" where
  "sameAggregate s s' =
     (processedResults s' = processedResults s \<and> processedCount s' = processedCount s
      \<and> blankSkipped s' = blankSkipped s)"

section \<open>Example inputs\<close>

text \<open>
  A small directory (214 Texas, 216 Ohio, 612 Minnesota), an idle page holding a file,
  and three users: one who clicks nothing, one who clicks Cancel while the loop is
  suspended after the first batch, and one who then clicks Start in the same suspension
  (the clock shows one second at every update); and two files.
\<close>

definition exDirectory :: directory where
  "exDirectory =
     \<lparr>isValidAreaCode = (\<lambda>a. a = ''214'' \<or> a = ''216'' \<or> a = ''612''),
      getStateFromAreaCode =
        (\<lambda>a. if a = ''214'' then ''Texas''
             else if a = ''216'' then ''Ohio''
             else if a = ''612'' then ''Minnesota'' else ''Unknown'')\<rparr>"

definition exOptions :: "int option \<Rightarrow> options" where
  "exOptions b =
     \<lparr>removePlusOne = True, filterInvalid = True, groupByState = True, batchSize = b\<rparr>"

definition exIdle :: "string \<Rightarrow> gstate" where
  "exIdle content =
     \<lparr>processingActive = False, processingCancelled = False,
      currentFileContent = Some content, processedResults = emptyResults,
      processedCount = 0, blankSkipped = 0, events = []\<rparr>"

definition neverCancelled :: env where
  "neverCancelled = \<lparr>actionsAt = (\<lambda>k. []), elapsedAt = (\<lambda>k. 1)\<rparr>"

definition cancelledAfterFirstBatch :: env where
  "cancelledAfterFirstBatch =
     \<lparr>actionsAt = (\<lambda>k. if k = 0 then [ClickCancel] else []), elapsedAt = (\<lambda>k. 1)\<rparr>"

definition restartedAfterCancel :: env where
  "restartedAfterCancel =
     \<lparr>actionsAt =
        (\<lambda>k. if k = 0 then [ClickCancel, ClickStart (exOptions (Some 1)) 1] else []),
      elapsedAt = (\<lambda>k. 1)\<rparr>"

definition twoNumbers :: string where
  "twoNumbers = ''2145551234'' @ [CHR 0x0A] @ ''2165551234''"

definition blankThenNumber :: string where
  "blankThenNumber = [CHR 0x0A] @ ''6125544556''"

section \<open>Rounding to a double\<close>

lemma pow2_pos [simp]: "0 < pow2 e"
  by (simp add: pow2_def)

lemma pow2_add: "pow2 (a + b) = pow2 a * pow2 b"
  by (simp add: pow2_def power_int_add)

lemma pow2_nat: "pow2 (int n) = 2 ^ n"
  by (simp add: pow2_def)

lemma pow2_mono: "a \<le> b \<Longrightarrow> pow2 a \<le> pow2 b"
  by (simp add: pow2_def power_int_increasing)

lemma pow2_nonneg: "0 \<le> e \<Longrightarrow> pow2 e = 2 ^ nat e"
  by (simp add: pow2_def power_int_def)

lemma pow2_le_imp_le:
  assumes "pow2 a \<le> pow2 b"
  shows "a \<le> b"
proof (rule ccontr)
  assume "\<not> a \<le> b"
  then have "b < a" by simp
  then have "pow2 b < pow2 a"
    unfolding pow2_def by (rule power_int_strict_increasing) simp
  with assms show False by simp
qed

lemma pow2_cancel: "pow2 (- e) * pow2 e = 1"
  using pow2_add [of "- e" e] by (simp add: pow2_def)

lemma ilog2_le:
  assumes "0 < x"
  shows "pow2 (ilog2 x) \<le> x"
proof -
  obtain a b where q: "quotient_of x = (a, b)" by (cases "quotient_of x")
  have b: "0 < b" using q by (rule quotient_of_denom_pos)
  have x: "x = of_int a / of_int b" using q by (rule quotient_of_div)
  have a: "0 < a" using assms b unfolding x by (simp add: zero_less_divide_iff)
  let ?d = "bitlen a - bitlen b"
  show ?thesis
  proof (cases "pow2 ?d \<le> x")
    case True
    then show ?thesis by (simp add: ilog2_def q Let_def)
  next
    case False
    have la: "(2::int) ^ nat (bitlen a - 1) \<le> a" using bitlen_bounds [OF a] by simp
    have lb: "b < 2 ^ nat (bitlen b)" using bitlen_bounds [OF b] by simp
    have la1: "1 \<le> bitlen a" using a by (simp add: bitlen_alt_def)
    have ra: "pow2 (bitlen a - 1) \<le> of_int a"
    proof -
      have "pow2 (bitlen a - 1) = 2 ^ nat (bitlen a - 1)"
        using la1 by (intro pow2_nonneg) simp
      also have "\<dots> = of_int (2 ^ nat (bitlen a - 1))" by simp
      also have "\<dots> \<le> of_int a" using la by (simp only: of_int_le_iff)
      finally show ?thesis .
    qed
    have rb: "of_int b \<le> pow2 (bitlen b)"
    proof -
      have "(of_int b :: rat) \<le> of_int (2 ^ nat (bitlen b))"
        using lb by (simp only: of_int_le_iff)
      also have "\<dots> = 2 ^ nat (bitlen b)" by simp
      also have "\<dots> = pow2 (bitlen b)"
        using bitlen_nonneg [of b] by (simp add: pow2_nonneg)
      finally show ?thesis .
    qed
    have "pow2 (?d - 1) = pow2 (bitlen a - 1) * pow2 (- bitlen b)"
      using pow2_add [of "bitlen a - 1" "- bitlen b"] by (simp add: algebra_simps)
    also have "\<dots> \<le> of_int a * pow2 (- bitlen b)"
      using ra by (simp add: mult_right_mono less_imp_le)
    also have "\<dots> \<le> of_int a / of_int b"
    proof -
      have "pow2 (- bitlen b) * of_int b \<le> pow2 (- bitlen b) * pow2 (bitlen b)"
        using rb by (simp add: mult_left_mono less_imp_le)
      then have "pow2 (- bitlen b) * of_int b \<le> 1" by (simp add: pow2_cancel)
      then have "pow2 (- bitlen b) \<le> 1 / of_int b"
        using b by (simp add: pos_le_divide_eq)
      moreover have "(0::rat) \<le> of_int a" using a by simp
      ultimately have "of_int a * pow2 (- bitlen b) \<le> of_int a * (1 / of_int b)"
        by (rule mult_left_mono)
      then show ?thesis by simp
    qed
    finally have "pow2 (?d - 1) \<le> x" unfolding x .
    then show ?thesis using False by (simp add: ilog2_def q Let_def)
  qed
qed

lemma ilog2_gt:
  assumes "0 < x"
  shows "x < pow2 (ilog2 x + 1)"
proof -
  obtain a b where q: "quotient_of x = (a, b)" by (cases "quotient_of x")
  have b: "0 < b" using q by (rule quotient_of_denom_pos)
  have x: "x = of_int a / of_int b" using q by (rule quotient_of_div)
  have a: "0 < a" using assms b unfolding x by (simp add: zero_less_divide_iff)
  let ?d = "bitlen a - bitlen b"
  show ?thesis
  proof (cases "pow2 ?d \<le> x")
    case False
    then show ?thesis by (simp add: ilog2_def q Let_def)
  next
    case True
    have ua: "a < 2 ^ nat (bitlen a)" using bitlen_bounds [OF a] by simp
    have lb: "(2::int) ^ nat (bitlen b - 1) \<le> b" using bitlen_bounds [OF b] by simp
    have lb1: "1 \<le> bitlen b" using b by (simp add: bitlen_alt_def)
    have ra: "of_int a < pow2 (bitlen a)"
    proof -
      have "(of_int a :: rat) < of_int (2 ^ nat (bitlen a))"
        using ua by (simp only: of_int_less_iff)
      also have "\<dots> = 2 ^ nat (bitlen a)" by simp
      also have "\<dots> = pow2 (bitlen a)"
        using bitlen_nonneg [of a] by (simp add: pow2_nonneg)
      finally show ?thesis .
    qed
    have rb: "pow2 (bitlen b - 1) \<le> of_int b"
    proof -
      have "pow2 (bitlen b - 1) = 2 ^ nat (bitlen b - 1)"
        using lb1 by (intro pow2_nonneg) simp
      also have "\<dots> = of_int (2 ^ nat (bitlen b - 1))" by simp
      also have "\<dots> \<le> of_int b" using lb by (simp only: of_int_le_iff)
      finally show ?thesis .
    qed
    have "of_int a < pow2 (bitlen a)" by (rule ra)
    also have "pow2 (bitlen a) = pow2 (?d + 1) * pow2 (bitlen b - 1)"
      using pow2_add [of "?d + 1" "bitlen b - 1"] by (simp add: algebra_simps)
    also have "\<dots> \<le> pow2 (?d + 1) * of_int b"
      using rb by (simp add: mult_left_mono less_imp_le)
    finally have "of_int a < pow2 (?d + 1) * of_int b" .
    then have "of_int a / of_int b < pow2 (?d + 1)"
      using b by (simp add: pos_divide_less_eq)
    then have "x < pow2 (?d + 1)" unfolding x .
    then show ?thesis using True by (simp add: ilog2_def q Let_def)
  qed
qed

lemma roundHalfEven_le: "y \<le> of_int M \<Longrightarrow> roundHalfEven y \<le> M"
proof -
  assume h: "y \<le> of_int M"
  show ?thesis
  proof (cases "y = of_int M")
    case True
    then show ?thesis by (simp add: roundHalfEven_def)
  next
    case False
    with h have "y < of_int M" by simp
    then have "\<lfloor>y\<rfloor> < M" by (simp add: floor_less_iff)
    then show ?thesis by (simp add: roundHalfEven_def Let_def)
  qed
qed

lemma roundHalfEven_ge: "of_int K \<le> y \<Longrightarrow> K \<le> roundHalfEven y"
proof -
  assume "of_int K \<le> y"
  then have "K \<le> \<lfloor>y\<rfloor>" by (simp add: le_floor_iff)
  then show ?thesis by (simp add: roundHalfEven_def Let_def)
qed

lemma pow2_inverse: "1 / pow2 e = pow2 (- e)"
  by (simp add: pow2_def power_int_minus divide_inverse)

lemma divide_pow2: "x / pow2 e = x * pow2 (- e)"
  by (simp add: pow2_def power_int_minus divide_inverse)

lemma roundPos_below_2_52:
  assumes "0 < x" and "x \<le> 2 ^ 52"
  shows "roundPos x =
           Fin (of_int (roundHalfEven (x / pow2 (max (ilog2 x - 52) (- 1074))))
                  * pow2 (max (ilog2 x - 52) (- 1074)))"
    and "max (ilog2 x - 52) (- 1074) \<le> 0"
proof -
  have "pow2 (ilog2 x) \<le> x" using assms(1) by (rule ilog2_le)
  also have "x \<le> pow2 52" using assms(2) by (simp add: pow2_nonneg)
  finally have l: "ilog2 x \<le> 52" by (rule pow2_le_imp_le)
  then show "max (ilog2 x - 52) (- 1074) \<le> 0" by simp
  show "roundPos x =
           Fin (of_int (roundHalfEven (x / pow2 (max (ilog2 x - 52) (- 1074))))
                  * pow2 (max (ilog2 x - 52) (- 1074)))"
    using l by (simp add: roundPos_def Let_def)
qed

lemma roundPos_le_int:
  assumes "0 < x" and "x \<le> of_int N" and "N \<le> 2 ^ 52"
  shows "\<exists>r. roundPos x = Fin r \<and> 0 \<le> r \<and> r \<le> of_int N"
proof -
  define e where "e = max (ilog2 x - 52) (- 1074)"
  define p where "p = pow2 e"
  define P where "P = (2::int) ^ nat (- e)"
  define m where "m = roundHalfEven (x / p)"
  have "(of_int N :: rat) \<le> of_int (2 ^ 52)" using assms(3) by (simp only: of_int_le_iff)
  then have x52: "x \<le> 2 ^ 52" using assms(2) by simp
  have e: "e \<le> 0" and rp: "roundPos x = Fin (of_int m * p)"
    using roundPos_below_2_52 [OF assms(1) x52] by (simp_all add: e_def p_def m_def)
  have p0: "0 < p" by (simp add: p_def)
  have Pp: "of_int P * p = 1"
  proof -
    have "pow2 (- e) = 2 ^ nat (- e)" using e by (intro pow2_nonneg) simp
    then have "of_int P = pow2 (- e)" by (simp add: P_def)
    then show ?thesis by (simp add: p_def pow2_cancel)
  qed
  have xp: "x / p = x * of_int P"
  proof -
    have "x / p = x / p * (of_int P * p)" by (simp add: Pp)
    also have "\<dots> = x * of_int P" using p0 by simp
    finally show ?thesis .
  qed
  have "x * of_int P \<le> of_int N * of_int P"
    using assms(2) by (intro mult_right_mono) (simp_all add: P_def)
  then have "x / p \<le> of_int (N * P)" by (simp add: xp)
  then have "m \<le> N * P" unfolding m_def by (rule roundHalfEven_le)
  then have "(of_int m :: rat) \<le> of_int (N * P)" by (simp only: of_int_le_iff)
  then have "of_int m * p \<le> of_int (N * P) * p"
    using p0 by (intro mult_right_mono) simp_all
  also have "\<dots> = of_int N * (of_int P * p)" by simp
  also have "\<dots> = of_int N" by (simp only: Pp mult_1_right)
  finally have up: "of_int m * p \<le> of_int N" .
  have "(of_int 0 :: rat) \<le> x / p" using assms(1) p0 by simp
  then have "0 \<le> m" unfolding m_def by (rule roundHalfEven_ge)
  then have "0 \<le> of_int m * p" using p0 by simp
  then show ?thesis using rp up by blast
qed

lemma roundPos_gt_int:
  assumes "0 < x" and "x \<le> 2 ^ 52" and "0 \<le> J"
    and "of_int J + pow2 (max (ilog2 x - 52) (- 1074)) \<le> x"
  shows "\<exists>r. roundPos x = Fin r \<and> of_int J < r"
proof -
  define e where "e = max (ilog2 x - 52) (- 1074)"
  define p where "p = pow2 e"
  define P where "P = (2::int) ^ nat (- e)"
  define m where "m = roundHalfEven (x / p)"
  have e: "e \<le> 0" and rp: "roundPos x = Fin (of_int m * p)"
    using roundPos_below_2_52 [OF assms(1,2)] by (simp_all add: e_def p_def m_def)
  have p0: "0 < p" by (simp add: p_def)
  have Pp: "of_int P * p = 1"
  proof -
    have "pow2 (- e) = 2 ^ nat (- e)" using e by (intro pow2_nonneg) simp
    then have "of_int P = pow2 (- e)" by (simp add: P_def)
    then show ?thesis by (simp add: p_def pow2_cancel)
  qed
  have xp: "x / p = x * of_int P"
  proof -
    have "x / p = x / p * (of_int P * p)" by (simp add: Pp)
    also have "\<dots> = x * of_int P" using p0 by simp
    finally show ?thesis .
  qed
  have h: "of_int J + p \<le> x" using assms(4) by (simp add: p_def e_def)
  have "(of_int J + p) * of_int P \<le> x * of_int P"
    using h by (intro mult_right_mono) (simp_all add: P_def)
  moreover have "(of_int J + p) * of_int P = of_int (J * P + 1)"
  proof -
    have "(of_int J + p) * of_int P = of_int J * of_int P + of_int P * p"
      by (simp add: algebra_simps)
    also have "\<dots> = of_int (J * P + 1)" by (simp add: Pp)
    finally show ?thesis .
  qed
  ultimately have "of_int (J * P + 1) \<le> x / p" by (simp only: xp)
  then have "J * P + 1 \<le> m" unfolding m_def by (rule roundHalfEven_ge)
  then have "(of_int (J * P + 1) :: rat) \<le> of_int m" by (simp only: of_int_le_iff)
  then have "of_int (J * P + 1) * p \<le> of_int m * p"
    using p0 by (intro mult_right_mono) simp_all
  moreover have "of_int (J * P + 1) * p = of_int J + p"
  proof -
    have "of_int (J * P + 1) * p = of_int J * (of_int P * p) + p"
      by (simp add: algebra_simps)
    also have "\<dots> = of_int J + p" by (simp only: Pp mult_1_right)
    finally show ?thesis .
  qed
  ultimately have "of_int J + p \<le> of_int m * p" by simp
  then have "of_int J < of_int m * p" using p0 by linarith
  then show ?thesis using rp by blast
qed

lemma roundPos_sign:
  assumes "0 < x"
  shows "roundPos x = PosInf \<or> (\<exists>r. roundPos x = Fin r \<and> 0 \<le> r)"
proof -
  let ?e = "max (ilog2 x - 52) (- 1074)"
  have "(of_int 0 :: rat) \<le> x / pow2 ?e" using assms by (simp add: less_imp_le)
  then have "0 \<le> roundHalfEven (x / pow2 ?e)" by (rule roundHalfEven_ge)
  then have "0 \<le> of_int (roundHalfEven (x / pow2 ?e)) * pow2 ?e"
    by (simp add: less_imp_le)
  then show ?thesis by (auto simp: roundPos_def Let_def)
qed

lemma ceil_quotient:
  assumes "0 < b" and "int n \<le> 2 ^ 52" and "b \<le> 2 ^ 1074"
  shows "jsceil (jsdiv (Fin (of_nat n)) (Fin (of_int b)))
         = Fin (of_int \<lceil>(of_nat n :: rat) / of_int b\<rceil>)"
proof (cases "n = 0")
  case True
  then show ?thesis using assms(1) by (simp add: round64_def)
next
  case False
  define x where "x = (of_nat n :: rat) / of_int b"
  define k where "k = \<lceil>x\<rceil>"
  define e where "e = max (ilog2 x - 52) (- 1074)"
  have b0: "(0::rat) < of_int b" using assms(1) by simp
  have b1: "(1::rat) \<le> of_int b" using assms(1) by (simp add: int_one_le_iff_zero_less)
  have x0: "0 < x" using False b0 by (simp add: x_def)
  have xn: "x \<le> of_nat n"
  proof -
    have "(of_nat n :: rat) \<le> of_nat n * of_int b" using b1 by (simp add: mult_le_cancel_left1)
    then show ?thesis using b0 by (simp add: x_def pos_divide_le_eq)
  qed
  have n52: "(of_nat n :: rat) \<le> 2 ^ 52"
  proof -
    have "(of_int (int n) :: rat) \<le> of_int (2 ^ 52)" using assms(2) by (simp only: of_int_le_iff)
    then show ?thesis by simp
  qed
  have x52: "x \<le> 2 ^ 52" using xn n52 by simp
  have xk: "x \<le> of_int k" by (simp add: k_def)
  have kx: "of_int k - 1 < x" unfolding k_def by linarith
  have k1: "1 \<le> k" using x0 by (simp add: k_def)
  have kn: "k \<le> int n"
  proof -
    have "x \<le> of_int (int n)" using xn by simp
    then show ?thesis unfolding k_def by (simp only: ceiling_le_iff)
  qed
  have k52: "k \<le> 2 ^ 52" using kn assms(2) by simp
  obtain r1 where r1: "roundPos x = Fin r1" "r1 \<le> of_int k"
    using roundPos_le_int [OF x0 xk k52] by blast
  have step: "of_int (k - 1) + 1 / of_int b \<le> x"
  proof -
    have "(of_int (k - 1) :: rat) * of_int b < of_nat n"
      using kx b0 by (simp add: x_def pos_less_divide_eq)
    then have "(of_int ((k - 1) * b) :: rat) < of_int (int n)" by simp
    then have "(k - 1) * b < int n" by (simp only: of_int_less_iff)
    then have "(k - 1) * b + 1 \<le> int n" by simp
    then have "(of_int ((k - 1) * b + 1) :: rat) \<le> of_int (int n)" by (simp only: of_int_le_iff)
    then have "(of_int (k - 1) :: rat) * of_int b + 1 \<le> of_nat n" by simp
    then have "((of_int (k - 1) :: rat) * of_int b + 1) / of_int b \<le> of_nat n / of_int b"
      using b0 by (simp add: divide_right_mono)
    moreover have "((of_int (k - 1) :: rat) * of_int b + 1) / of_int b
                   = of_int (k - 1) + 1 / of_int b"
      using b0 by (simp add: field_simps)
    ultimately show ?thesis by (simp add: x_def)
  qed
  have pe: "pow2 e \<le> 1 / of_int b"
  proof (cases "- 1074 \<le> ilog2 x - 52")
    case True
    then have "e = ilog2 x + (- 52)" by (simp add: e_def)
    then have "pow2 e = pow2 (ilog2 x) * pow2 (- 52)" by (simp only: pow2_add)
    also have "\<dots> \<le> x * pow2 (- 52)"
      using ilog2_le [OF x0] by (intro mult_right_mono) (simp_all add: less_imp_le)
    also have "\<dots> = x / 2 ^ 52"
      using divide_pow2 [of x 52] by (simp add: pow2_nonneg)
    also have "\<dots> \<le> 1 / of_int b"
    proof -
      have "of_nat n / 2 ^ 52 \<le> (1::rat)" using n52 by simp
      then have "of_nat n / 2 ^ 52 / of_int b \<le> 1 / (of_int b :: rat)"
        using b0 by (intro divide_right_mono) simp_all
      then show ?thesis by (simp add: x_def field_simps)
    qed
    finally show ?thesis .
  next
    case False
    then have "e = - 1074" by (simp add: e_def)
    then have "pow2 e = 1 / 2 ^ 1074"
      using pow2_inverse [of 1074] by (simp add: pow2_nonneg)
    also have "\<dots> \<le> 1 / of_int b"
    proof -
      have "(of_int b :: rat) \<le> of_int (2 ^ 1074)" using assms(3) by (simp only: of_int_le_iff)
      then have "(of_int b :: rat) \<le> 2 ^ 1074" by simp
      then show ?thesis using b0 by (simp add: frac_le)
    qed
    finally show ?thesis .
  qed
  have "of_int (k - 1) + pow2 e \<le> x" using step pe by linarith
  then obtain r2 where r2: "roundPos x = Fin r2" "of_int (k - 1) < r2"
    using roundPos_gt_int [OF x0 x52, of "k - 1"] k1 by (auto simp: e_def)
  have r: "roundPos x = Fin r1" "of_int k - 1 < r1" "r1 \<le> of_int k"
    using r1 r2 by simp_all
  have "\<lceil>r1\<rceil> = k" using r(2,3) by (rule ceiling_unique)
  moreover have "jsdiv (Fin (of_nat n)) (Fin (of_int b)) = Fin r1"
    using x0 b0 r(1) \<open>n \<noteq> 0\<close> by (simp add: round64_def x_def)
  ultimately show ?thesis by (simp add: k_def x_def)
qed

text \<open>
  The doubles nearest to \<open>1/10\<close>, \<open>1/3\<close> and \<open>18/7\<close>, and the double quotient
  \<open>9 / (18 / 7)\<close>, which is below \<open>7/2\<close>.
\<close>

lemma round64_examples:
  "round64 (1 / 10) = Fin (3602879701896397 / 2 ^ 55)"
  "round64 (1 / 3) = Fin (6004799503160661 / 2 ^ 54)"
  "round64 (18 / 7) = Fin (5790342378047781 / 2 ^ 51)"
  "jsdiv (Fin 9) (round64 (18 / 7)) = Fin (7881299347898367 / 2 ^ 51)"
  by code_simp+

section \<open>The regular expressions, characterised\<close>

lemma iter_Backref:
  "iter n (matchR Backref) (p, rest, Some g) =
     (if take (n * length g) rest = concat (replicate n g)
      then [(p + n * length g, drop (n * length g) rest, Some g)] else [])"
proof (induction n arbitrary: p rest)
  case 0
  then show ?case by simp
next
  case (Suc n)
  show ?case
  proof (cases "take (length g) rest = g")
    case True
    then have rest: "rest = g @ drop (length g) rest"
      by (metis append_take_drop_id)
    have "take (Suc n * length g) rest = concat (replicate (Suc n) g)
          \<longleftrightarrow> take (n * length g) (drop (length g) rest) = concat (replicate n g)"
      apply (subst (1) rest)
      apply (simp add: True)
      done
    then show ?thesis
      using True Suc.IH[of "p + length g" "drop (length g) rest"]
      by (simp add: add.commute add.left_commute)
  next
    case False
    have "take (Suc n * length g) rest \<noteq> concat (replicate (Suc n) g)"
    proof
      assume a: "take (Suc n * length g) rest = concat (replicate (Suc n) g)"
      have "take (length g) (take (Suc n * length g) rest) = take (length g) rest"
        by (simp add: min_def)
      with a have "take (length g) rest = g" by simp
      with False show False by simp
    qed
    with False show ?thesis by simp
  qed
qed

lemma iter_Digit:
  "iter n (matchR Digit) (p, rest, cap) =
     (if n \<le> length rest \<and> (\<forall>c \<in> set (take n rest). isDigit c)
      then [(p + n, drop n rest, cap)] else [])"
proof (induction n arbitrary: p rest)
  case 0
  then show ?case by simp
next
  case (Suc n)
  show ?case
  proof (cases rest)
    case Nil
    then show ?thesis by simp
  next
    case (Cons x xs)
    then show ?thesis using Suc.IH[of "Suc p" xs] by auto
  qed
qed

lemma regex_test_Bol:
  "regex_test (Cat Bol r) s = (matchR r (0, s, None) \<noteq> [])"
proof -
  have "\<And>i. matchR (Cat Bol r) (i, drop i s, None) \<noteq> [] \<longleftrightarrow> i = 0 \<and> matchR r (0, s, None) \<noteq> []"
    by auto
  then show ?thesis
    unfolding regex_test_def list_ex_iff by auto
qed

lemma allSameDigits_iff:
  "regex_test allSameDigits s \<longleftrightarrow> (\<exists>d. isDigit d \<and> s = replicate 10 d)"
proof (cases s)
  case Nil
  then show ?thesis by (simp add: allSameDigits_def regex_test_Bol)
next
  case (Cons x xs)
  have rep: "concat (replicate 9 [x]) = replicate 9 x"
    by (simp add: eval_nat_numeral)
  have "regex_test allSameDigits s \<longleftrightarrow> isDigit x \<and> take 9 xs = replicate 9 x \<and> drop 9 xs = []"
    using Cons by (simp add: allSameDigits_def regex_test_Bol iter_Backref rep del: matchR.simps(6))
  also have "\<dots> \<longleftrightarrow> isDigit x \<and> xs = replicate 9 x"
  proof -
    have "take 9 xs = replicate 9 x \<and> drop 9 xs = [] \<longleftrightarrow> xs = replicate 9 x"
    proof
      assume h: "take 9 xs = replicate 9 x \<and> drop 9 xs = []"
      have "xs = take 9 xs @ drop 9 xs" by (simp only: append_take_drop_id)
      with h show "xs = replicate 9 x" by simp
    next
      assume "xs = replicate 9 x"
      then show "take 9 xs = replicate 9 x \<and> drop 9 xs = []" by simp
    qed
    then show ?thesis by blast
  qed
  also have "\<dots> \<longleftrightarrow> (\<exists>d. isDigit d \<and> s = replicate 10 d)"
    using Cons by (auto simp: eval_nat_numeral)
  finally show ?thesis .
qed

lemma matchR_lits:
  "matchR (lits cs r) (p, rest, cap) =
     (if take (length cs) rest = cs then matchR r (p + length cs, drop (length cs) rest, cap) else [])"
proof (induction cs arbitrary: p rest)
  case Nil
  then show ?case by (simp add: lits_def)
next
  case (Cons c cs)
  have unf: "lits (c # cs) r = Cat (Lit c) (lits cs r)" by (simp add: lits_def)
  show ?case
  proof (cases rest)
    case Nil
    then show ?thesis by (simp add: unf)
  next
    case (Cons x xs)
    then show ?thesis using Cons.IH[of "Suc p" xs] by (simp add: unf)
  qed
qed

lemma sequential_iff: "regex_test sequential s \<longleftrightarrow> s = ''1234567890''"
proof -
  have "regex_test sequential s \<longleftrightarrow> take 10 s = ''1234567890'' \<and> drop 10 s = []"
    by (simp add: sequential_def regex_test_Bol matchR_lits)
  also have "\<dots> \<longleftrightarrow> s = ''1234567890''"
  proof
    assume h: "take 10 s = ''1234567890'' \<and> drop 10 s = []"
    have "s = take 10 s @ drop 10 s" by (simp only: append_take_drop_id)
    with h show "s = ''1234567890''" by simp
  next
    assume "s = ''1234567890''"
    then show "take 10 s = ''1234567890'' \<and> drop 10 s = []" by simp
  qed
  finally show ?thesis .
qed

lemma repeatedPattern_iff:
  "regex_test repeatedPattern s \<longleftrightarrow>
     (\<exists>g. length g = 3 \<and> (\<forall>c \<in> set g. isDigit c) \<and> s = g @ g @ g)"
  (is "?L \<longleftrightarrow> ?R")
proof -
  have rep: "\<And>g::string. concat (replicate 2 g) = g @ g"
    by (simp add: eval_nat_numeral)
  have L: "?L \<longleftrightarrow> 3 \<le> length s \<and> (\<forall>c \<in> set (take 3 s). isDigit c) \<and>
             take 6 (drop 3 s) = take 3 s @ take 3 s \<and> drop 6 (drop 3 s) = []"
    by (cases "3 \<le> length s")
      (simp_all add: repeatedPattern_def regex_test_Bol iter_Digit iter_Backref rep min_def
        del: matchR.simps(4) matchR.simps(6))
  show ?thesis
  proof
    assume ?L
    with L have a: "3 \<le> length s" and b: "\<forall>c \<in> set (take 3 s). isDigit c"
      and c: "take 6 (drop 3 s) = take 3 s @ take 3 s" and d: "drop 6 (drop 3 s) = []"
      by (auto simp: min_def)
    have "s = take 3 s @ drop 3 s" by simp
    also have "drop 3 s = take 6 (drop 3 s) @ drop 6 (drop 3 s)"
      by (simp only: append_take_drop_id)
    finally have "s = take 3 s @ take 3 s @ take 3 s" using c d by simp
    with a b show ?R by (intro exI[of _ "take 3 s"]) (auto simp: min_def)
  next
    assume ?R
    then obtain g where g: "length g = 3" "\<forall>c \<in> set g. isDigit c" "s = g @ g @ g" by blast
    then show ?L unfolding L by simp
  qed
qed

text \<open>The third pattern matches strings of 9 characters only.\<close>

lemma repeatedPattern_length: "regex_test repeatedPattern s \<Longrightarrow> length s = 9"
  by (auto simp: repeatedPattern_iff)

lemma repeatedPattern_length_witness:
  "regex_test repeatedPattern ''234234234'' \<and> length ''234234234'' = 9"
proof -
  have m: "regex_test repeatedPattern ''234234234''" by code_simp
  show ?thesis using m repeatedPattern_length [OF m] by simp
qed

section \<open>Validator and normalizer\<close>

lemma charAt_0_10: "length s = 10 \<Longrightarrow> charAt s 0 = Some (s ! 0)"
  by (simp add: charAt_def)

lemma substring_0_3: "length s = 10 \<Longrightarrow> substring s 0 3 = take 3 s"
  by (simp add: substring_def Let_def)

lemma charAt_exchange: "length s = 10 \<Longrightarrow> charAt (substring s 3 6) 0 = Some (s ! 3)"
  by (simp add: substring_def Let_def charAt_def)

lemma isValidUSNumber_length: "isValidUSNumber validAreaCode s \<Longrightarrow> length s = 10"
  by (simp add: isValidUSNumber_def split: if_splits)

text \<open>After the length check the third pattern refuses nothing.\<close>

lemma repeatedPattern_never: "length s = 10 \<Longrightarrow> \<not> regex_test repeatedPattern s"
  by (auto simp: repeatedPattern_iff)

text \<open>
  Claim C1. For every string, \<open>isValidUSNumber\<close> returns true exactly when the string
  has 10 characters, its first character is neither 0 nor 1, its first three characters
  pass the area-code check, its fourth character is neither 0 nor 1, and it matches none
  of the three patterns: ten equal digits, the literal 1234567890, a group of three digits
  followed by two copies of itself. In particular a string of another length is refused.
\<close>

theorem isValidUSNumber_iff:
  "isValidUSNumber validAreaCode s \<longleftrightarrow>
     length s = 10
     \<and> s ! 0 \<noteq> CHR ''0'' \<and> s ! 0 \<noteq> CHR ''1''
     \<and> validAreaCode (take 3 s)
     \<and> s ! 3 \<noteq> CHR ''0'' \<and> s ! 3 \<noteq> CHR ''1''
     \<and> \<not> (\<exists>d. isDigit d \<and> s = replicate 10 d)
     \<and> s \<noteq> ''1234567890''
     \<and> \<not> (\<exists>g. length g = 3 \<and> (\<forall>c \<in> set g. isDigit c) \<and> s = g @ g @ g)"
proof (cases "length s = 10")
  case False
  then show ?thesis by (simp add: isValidUSNumber_def)
next
  case True
  then show ?thesis
    unfolding isValidUSNumber_def invalidPatterns_def Let_def
    by (simp add: charAt_0_10 substring_0_3 charAt_exchange allSameDigits_iff sequential_iff
        repeatedPattern_iff)
qed

theorem isValidUSNumber_iff_witness:
  "isValidUSNumber (\<lambda>a. a = ''612'') ''6125544556''
   \<and> \<not> isValidUSNumber (\<lambda>a. a = ''612'') ''612554455''"
proof -
  have a: "\<not> (\<exists>d. isDigit d \<and> ''6125544556'' = replicate 10 d)"
    by (auto simp: eval_nat_numeral)
  have b: "\<not> (\<exists>g. length g = 3 \<and> (\<forall>c \<in> set g. isDigit c) \<and> ''6125544556'' = g @ g @ g)"
  proof
    assume "\<exists>g. length g = 3 \<and> (\<forall>c \<in> set g. isDigit c) \<and> ''6125544556'' = g @ g @ g"
    then obtain g where g: "length g = 3" and e: "''6125544556'' = g @ g @ g" by blast
    have "length ''6125544556'' = length (g @ g @ g)" by (rule arg_cong [OF e])
    with g show False by simp
  qed
  show ?thesis
    using a b
      isValidUSNumber_iff [of "\<lambda>a. a = ''612''" "''6125544556''"]
      isValidUSNumber_iff [of "\<lambda>a. a = ''612''" "''612554455''"]
    by simp
qed

text \<open>
  Claim C2. The claim says that the repeated-group pattern refuses some string of 10
  characters. At 2342342342, a string of 10 digits built from the group 234, the pattern
  does not match and the validator's answer is that of the area-code check alone.
\<close>

theorem repeated_filter_dead_at_2342342342:
  "isValidUSNumber validAreaCode ''2342342342'' = validAreaCode ''234''
   \<and> \<not> regex_test repeatedPattern ''2342342342''"
proof -
  have len: "length ''2342342342'' = 10" by simp
  have r: "\<not> regex_test repeatedPattern ''2342342342''"
    using repeatedPattern_never [OF len] .
  have a: "\<not> regex_test allSameDigits ''2342342342''"
    by (auto simp: allSameDigits_iff eval_nat_numeral)
  have q: "\<not> regex_test sequential ''2342342342''"
    by (simp add: sequential_iff)
  show ?thesis
    using r a q
    by (simp add: isValidUSNumber_def invalidPatterns_def Let_def charAt_def substring_def)
qed

text \<open>
  Claim C9. Cleaning a string of exactly 10 digits returns it unchanged, whether the
  country code is to be removed or not; so it does for every string of digits that the
  validator accepts.
\<close>

theorem cleanPhoneNumber_idem:
  assumes "\<forall>c \<in> set s. isDigit c"
    and "length s = 10 \<or> isValidUSNumber validAreaCode s"
  shows "cleanPhoneNumber s b = s"
proof -
  have len: "length s = 10" using assms(2) isValidUSNumber_length by blast
  have "filter isDigit s = s" using assms(1) by (simp add: filter_id_conv)
  then show ?thesis using len by (simp add: cleanPhoneNumber_def Let_def)
qed

theorem cleanPhoneNumber_idem_witness:
  "length ''6125544556'' = 10
   \<and> isValidUSNumber (\<lambda>a. a = ''612'') ''6125544556''
   \<and> cleanPhoneNumber ''6125544556'' True = ''6125544556''
   \<and> cleanPhoneNumber ''6125544556'' False = ''6125544556''"
proof -
  have d: "\<forall>c \<in> set ''6125544556''. isDigit c" by (simp add: isDigit_def)
  have v: "isValidUSNumber (\<lambda>a. a = ''612'') ''6125544556''" by code_simp
  have l: "length ''6125544556'' = 10 \<or> isValidUSNumber (\<lambda>a. a = ''612'') ''6125544556''"
    by simp
  show ?thesis
    using v cleanPhoneNumber_idem [OF d l, of True] cleanPhoneNumber_idem [OF d l, of False]
    by simp
qed

text \<open>
  In the pipeline the validator only sees cleaned strings, which hold digits only: a
  cleaned string that is valid is a fixed point of cleaning.
\<close>

lemma cleanPhoneNumber_digits: "\<forall>c \<in> set (cleanPhoneNumber raw b). isDigit c"
proof -
  have "set (cleanPhoneNumber raw b) \<subseteq> set (filter isDigit raw)"
    by (auto simp: cleanPhoneNumber_def Let_def substringFrom_def dest: in_set_dropD)
  then show ?thesis by auto
qed

lemma renormalise_valid:
  assumes "isValidUSNumber validAreaCode (cleanPhoneNumber raw b)"
  shows "cleanPhoneNumber (cleanPhoneNumber raw b) b' = cleanPhoneNumber raw b"
proof -
  have "length (cleanPhoneNumber raw b) = 10"
    using assms by (rule isValidUSNumber_length)
  moreover have "filter isDigit (cleanPhoneNumber raw b) = cleanPhoneNumber raw b"
    using cleanPhoneNumber_digits [of raw b] by (simp add: filter_id_conv)
  ultimately show ?thesis
    by (simp add: cleanPhoneNumber_def [of "cleanPhoneNumber raw b"] Let_def)
qed

lemma renormalise_valid_witness:
  "cleanPhoneNumber ''+1 612-554-4556'' True = ''6125544556''
   \<and> cleanPhoneNumber ''+1 612-554-4556'' False = ''6125544556''
   \<and> cleanPhoneNumber (cleanPhoneNumber ''+1 612-554-4556'' True) False = ''6125544556''"
proof -
  have c: "cleanPhoneNumber ''+1 612-554-4556'' True = ''6125544556''" by code_simp
  have c': "cleanPhoneNumber ''+1 612-554-4556'' False = ''6125544556''" by code_simp
  have v: "isValidUSNumber (\<lambda>a. a = ''612'') (cleanPhoneNumber ''+1 612-554-4556'' True)"
    unfolding c by code_simp
  show ?thesis
    using c c' renormalise_valid [OF v, of False] by simp
qed

text \<open>
  Claim C10. Removing the pattern 1234567890 from the list changes the validator on no
  input: the string 1234567890 starts with 1 and is refused before the patterns are tried.
\<close>

theorem sequential_check_redundant:
  "isValidUSNumber_noSequential validAreaCode s = isValidUSNumber validAreaCode s"
proof (cases "length s = 10 \<and> s = ''1234567890''")
  case True
  then show ?thesis
    by (simp add: isValidUSNumber_def isValidUSNumber_noSequential_def charAt_def)
next
  case False
  then have "\<not> regex_test sequential s" by (auto simp: sequential_iff)
  then show ?thesis
    by (simp add: isValidUSNumber_def isValidUSNumber_noSequential_def invalidPatterns_def)
qed

theorem sequential_check_redundant_witness:
  "isValidUSNumber_noSequential (\<lambda>a. True) ''1234567890'' = isValidUSNumber (\<lambda>a. True) ''1234567890''
   \<and> \<not> isValidUSNumber_noSequential (\<lambda>a. True) ''1234567890''"
proof -
  have "\<not> isValidUSNumber (\<lambda>a. True) ''1234567890''"
    by (simp add: isValidUSNumber_def charAt_def)
  then show ?thesis
    using sequential_check_redundant [of "\<lambda>a. True" "''1234567890''"] by simp
qed

section \<open>One batch\<close>

lemma statsTotal_update [simp]:
  "statsTotal (s\<lparr>blankSkipped := n\<rparr>) = statsTotal s"
  "statsTotal (s\<lparr>processedCount := n\<rparr>) = statsTotal s"
  "statsTotal (s\<lparr>events := es\<rparr>) = statsTotal s"
  "statsTotal (s\<lparr>processingActive := a\<rparr>) = statsTotal s"
  "statsTotal (s\<lparr>processingCancelled := a\<rparr>) = statsTotal s"
  by (simp_all add: statsTotal_def)

lemma accounted_update [simp]:
  "accounted (s\<lparr>blankSkipped := n\<rparr>) = accounted s - blankSkipped s + n"
  "accounted (s\<lparr>processedCount := n\<rparr>) = accounted s"
  "accounted (s\<lparr>events := es\<rparr>) = accounted s"
  "accounted (s\<lparr>processingActive := a\<rparr>) = accounted s"
  "accounted (s\<lparr>processingCancelled := a\<rparr>) = accounted s"
  by (simp_all add: accounted_def)

lemma processSingleNumber_frame:
  "processingCancelled (processSingleNumber dir raw opts s) = processingCancelled s"
  "processingActive (processSingleNumber dir raw opts s) = processingActive s"
  "currentFileContent (processSingleNumber dir raw opts s) = currentFileContent s"
  "processedCount (processSingleNumber dir raw opts s) = processedCount s"
  "blankSkipped (processSingleNumber dir raw opts s) = blankSkipped s"
  "events (processSingleNumber dir raw opts s) = events s"
  "statsTotal (processSingleNumber dir raw opts s) = statsTotal s"
  by (simp_all add: processSingleNumber_def Let_def statsTotal_def)

lemma processSingleNumber_accounted:
  "accounted (processSingleNumber dir raw opts s) = accounted s + 1"
  by (simp add: processSingleNumber_def Let_def accounted_def)

lemma processSingleNumber_tally:
  "stats_rec.valid (stats (processedResults (processSingleNumber dir raw opts s)))
     + stats_rec.invalid (stats (processedResults (processSingleNumber dir raw opts s)))
   = stats_rec.valid (stats (processedResults s))
     + stats_rec.invalid (stats (processedResults s)) + 1"
  by (simp add: processSingleNumber_def Let_def)

lemma processBatch_cancelled:
  "processingCancelled s \<Longrightarrow> processBatch dir batch opts s = s"
  by (cases batch) simp_all

lemma processBatch_frame:
  "processingCancelled (processBatch dir batch opts s) = processingCancelled s
   \<and> processingActive (processBatch dir batch opts s) = processingActive s
   \<and> currentFileContent (processBatch dir batch opts s) = currentFileContent s
   \<and> statsTotal (processBatch dir batch opts s) = statsTotal s"
proof (induction batch arbitrary: s)
  case Nil
  then show ?case by simp
next
  case (Cons l ls)
  show ?case
    by (simp add: Let_def Cons.IH processSingleNumber_frame updateProcessingSpeed_def)
qed

lemma processBatch_accounted:
  "\<not> processingCancelled s \<Longrightarrow>
     accounted (processBatch dir batch opts s) = accounted s + length batch"
proof (induction batch arbitrary: s)
  case Nil
  then show ?case by simp
next
  case (Cons l ls)
  let ?s1 = "processSingleNumber dir (trim l) opts s"
  let ?s2 = "?s1\<lparr>processedCount := processedCount ?s1 + 1\<rparr>"
  have a2: "accounted ?s2 = accounted s + 1"
    using processSingleNumber_accounted [of dir "trim l" opts s] by (simp add: accounted_def)
  have c2: "\<not> processingCancelled ?s2"
    using Cons.prems by (simp add: processSingleNumber_frame)
  show ?case
  proof (cases "trim l = []")
    case True
    have "accounted (processBatch dir ls opts (s\<lparr>blankSkipped := blankSkipped s + 1\<rparr>))
          = accounted (s\<lparr>blankSkipped := blankSkipped s + 1\<rparr>) + length ls"
      using Cons.prems by (intro Cons.IH) simp
    then show ?thesis using True Cons.prems by (simp add: accounted_def)
  next
    case False
    show ?thesis
    proof (cases "processedCount ?s2 mod 1000 = 0")
      case True
      have "accounted (processBatch dir ls opts (updateProcessingSpeed ?s2))
            = accounted (updateProcessingSpeed ?s2) + length ls"
        using c2 by (intro Cons.IH) (simp add: updateProcessingSpeed_def)
      moreover have "accounted (updateProcessingSpeed ?s2) = accounted s + 1"
        using a2 by (simp add: updateProcessingSpeed_def accounted_def)
      ultimately show ?thesis
        using True False Cons.prems by (simp add: Let_def)
    next
      case nz: False
      have "accounted (processBatch dir ls opts ?s2) = accounted ?s2 + length ls"
        using c2 by (intro Cons.IH)
      then show ?thesis
        using nz False Cons.prems a2 by (simp add: Let_def)
    qed
  qed
qed

section \<open>Clicks\<close>

lemma sameAggregate_refl [simp]: "sameAggregate s s"
  by (simp add: sameAggregate_def)

lemma sameAggregate_trans: "sameAggregate s s' \<Longrightarrow> sameAggregate s' s'' \<Longrightarrow> sameAggregate s s''"
  by (simp add: sameAggregate_def)

lemma sameAggregate_accounted:
  "sameAggregate s s' \<Longrightarrow> accounted s' = accounted s \<and> statsTotal s' = statsTotal s"
  by (simp add: sameAggregate_def accounted_def statsTotal_def)

lemma updateProgressUI_frame [simp]:
  "processingCancelled (updateProgressUI t p c s) = processingCancelled s"
  "processingActive (updateProgressUI t p c s) = processingActive s"
  "accounted (updateProgressUI t p c s) = accounted s"
  "statsTotal (updateProgressUI t p c s) = statsTotal s"
  "sameAggregate s (updateProgressUI t p c s)"
  by (simp_all add: updateProgressUI_def Let_def sameAggregate_def)

lemma cancelProcessing_frame [simp]:
  "processingCancelled (cancelProcessing s)"
  "\<not> processingActive (cancelProcessing s)"
  "sameAggregate s (cancelProcessing s)"
  "events (cancelProcessing s) = events s @ [CancelAlert]"
  by (simp_all add: cancelProcessing_def sameAggregate_def)

lemma finishProcessing_frame [simp]:
  "accounted (finishProcessing s) = accounted s"
  "statsTotal (finishProcessing s) = statsTotal s"
  "processingCancelled (finishProcessing s) = processingCancelled s"
  "\<not> processingActive (finishProcessing s)"
  "events (finishProcessing s) = events s @ [Finished]"
  "sameAggregate s (finishProcessing s)"
  by (simp_all add: finishProcessing_def sameAggregate_def)

lemma clicks_Nil [simp]: "clicks dir [] sq = sq"
  by (simp add: clicks_def)

lemma clicks_Cons [simp]: "clicks dir (a # as) sq = clicks dir as (click dir a sq)"
  by (simp add: clicks_def)

lemma click_Cancel [simp]: "click dir ClickCancel (s, q) = (cancelProcessing s, q)"
  by (simp add: click_def)

lemma click_FileLoaded [simp]:
  "click dir (FileLoaded content) (s, q) = (s\<lparr>currentFileContent := Some content\<rparr>, q)"
  by (simp add: click_def)

lemma click_Start_active:
  "processingActive s \<Longrightarrow> click dir (ClickStart options t) (s, q) = (s, q)"
  by (simp add: click_def startProcessingCall_def split: option.splits)

lemma fileLoaded_frame [simp]:
  "sameAggregate s (s\<lparr>currentFileContent := Some content\<rparr>)"
  by (simp add: sameAggregate_def)

text \<open>
  Actions without a click on Start leave the queue, the aggregate and the counters as
  they are; the run is cancelled afterwards exactly when it was before or Cancel is
  among them.
\<close>

lemma clicks_only_Cancel:
  assumes "\<not> list_ex isStart as"
  shows "\<exists>s'. clicks dir as (s, q) = (s', q) \<and> sameAggregate s s'
              \<and> (processingCancelled s' \<longleftrightarrow> processingCancelled s \<or> ClickCancel \<in> set as)
              \<and> (processingActive s' \<longleftrightarrow> processingActive s \<and> ClickCancel \<notin> set as)
              \<and> (ClickCancel \<in> set as \<longrightarrow> CancelAlert \<in> set (events s'))
              \<and> (CancelAlert \<in> set (events s) \<longrightarrow> CancelAlert \<in> set (events s'))
              \<and> (ClickCancel \<notin> set as \<longrightarrow> events s' = events s)"
  using assms
proof (induction as arbitrary: s)
  case Nil
  then show ?case by simp
next
  case (Cons a as)
  have rest: "\<not> list_ex isStart as" using Cons.prems by simp
  show ?case
  proof (cases a)
    case ClickCancel
    obtain s' where s': "clicks dir as (cancelProcessing s, q) = (s', q)"
      "sameAggregate (cancelProcessing s) s'"
      "processingCancelled s' \<longleftrightarrow> processingCancelled (cancelProcessing s) \<or> ClickCancel \<in> set as"
      "processingActive s' \<longleftrightarrow> processingActive (cancelProcessing s) \<and> ClickCancel \<notin> set as"
      "CancelAlert \<in> set (events (cancelProcessing s)) \<longrightarrow> CancelAlert \<in> set (events s')"
      using Cons.IH [OF rest, of "cancelProcessing s"] by blast
    have "sameAggregate s s'"
      using sameAggregate_trans [OF cancelProcessing_frame(3) s'(2)] .
    then show ?thesis using s' ClickCancel by simp
  next
    case (ClickStart options t)
    then show ?thesis using Cons.prems by (simp add: isStart_def)
  next
    case (FileLoaded content)
    let ?s = "s\<lparr>currentFileContent := Some content\<rparr>"
    obtain s' where s': "clicks dir as (?s, q) = (s', q)"
      "sameAggregate ?s s'"
      "processingCancelled s' \<longleftrightarrow> processingCancelled ?s \<or> ClickCancel \<in> set as"
      "processingActive s' \<longleftrightarrow> processingActive ?s \<and> ClickCancel \<notin> set as"
      "ClickCancel \<in> set as \<longrightarrow> CancelAlert \<in> set (events s')"
      "CancelAlert \<in> set (events ?s) \<longrightarrow> CancelAlert \<in> set (events s')"
      "ClickCancel \<notin> set as \<longrightarrow> events s' = events ?s"
      using Cons.IH [OF rest, of ?s] by blast
    have "sameAggregate s s'"
      using sameAggregate_trans [OF fileLoaded_frame s'(2)] .
    then show ?thesis using s' FileLoaded by simp
  qed
qed

text \<open>The same while a run is active, for actions that do not restart the page.\<close>

lemma clicks_no_restart:
  assumes "processingActive s" and "\<not> restarts as"
  shows "\<exists>s'. clicks dir as (s, q) = (s', q) \<and> sameAggregate s s'
              \<and> (processingCancelled s' \<longleftrightarrow> processingCancelled s \<or> ClickCancel \<in> set as)
              \<and> (processingActive s' \<longleftrightarrow> ClickCancel \<notin> set as)
              \<and> (ClickCancel \<in> set as \<longrightarrow> CancelAlert \<in> set (events s'))
              \<and> (ClickCancel \<notin> set as \<longrightarrow> events s' = events s)"
  using assms
proof (induction as arbitrary: s)
  case Nil
  then show ?case by simp
next
  case (Cons a as)
  show ?case
  proof (cases a)
    case ClickCancel
    then have rest: "\<not> list_ex isStart as" using Cons.prems(2) by simp
    obtain s' where s': "clicks dir as (cancelProcessing s, q) = (s', q)"
      "sameAggregate (cancelProcessing s) s'"
      "processingCancelled s' \<longleftrightarrow> processingCancelled (cancelProcessing s) \<or> ClickCancel \<in> set as"
      "processingActive s' \<longleftrightarrow> processingActive (cancelProcessing s) \<and> ClickCancel \<notin> set as"
      "CancelAlert \<in> set (events (cancelProcessing s)) \<longrightarrow> CancelAlert \<in> set (events s')"
      using clicks_only_Cancel [OF rest, of dir "cancelProcessing s" q] by blast
    have "sameAggregate s s'"
      using sameAggregate_trans [OF cancelProcessing_frame(3) s'(2)] .
    then show ?thesis using s' ClickCancel by simp
  next
    case (ClickStart options t)
    then have "\<not> restarts as" using Cons.prems(2) by simp
    then show ?thesis
      using Cons.IH [OF Cons.prems(1)] ClickStart Cons.prems(1)
      by (simp add: click_Start_active)
  next
    case (FileLoaded content)
    let ?s = "s\<lparr>currentFileContent := Some content\<rparr>"
    have act: "processingActive ?s" using Cons.prems(1) by simp
    have nr: "\<not> restarts as" using Cons.prems(2) FileLoaded by simp
    obtain s' where s': "clicks dir as (?s, q) = (s', q)"
      "sameAggregate ?s s'"
      "processingCancelled s' \<longleftrightarrow> processingCancelled ?s \<or> ClickCancel \<in> set as"
      "processingActive s' \<longleftrightarrow> ClickCancel \<notin> set as"
      "ClickCancel \<in> set as \<longrightarrow> CancelAlert \<in> set (events s')"
      "ClickCancel \<notin> set as \<longrightarrow> events s' = events ?s"
      using Cons.IH [OF act nr] by blast
    have "sameAggregate s s'"
      using sameAggregate_trans [OF fileLoaded_frame s'(2)] .
    then show ?thesis using s' FileLoaded by simp
  qed
qed

section \<open>A suspended loop\<close>

lemma jslt_ceiling:
  assumes "0 < b"
  shows "jslt (Fin (of_nat i)) (Fin (of_int \<lceil>(of_nat n :: rat) / of_int b\<rceil>))
         \<longleftrightarrow> int i * b < int n"
proof -
  have cast: "(of_nat i :: rat) = of_int (int i)" by simp
  have "jslt (Fin (of_nat i)) (Fin (of_int \<lceil>(of_nat n :: rat) / of_int b\<rceil>))
        \<longleftrightarrow> int i < \<lceil>(of_nat n :: rat) / of_int b\<rceil>"
    unfolding jslt.simps cast by (rule of_int_less_iff)
  also have "\<dots> \<longleftrightarrow> (of_int (int i) :: rat) < of_nat n / of_int b"
    by (rule less_ceiling_iff)
  also have "\<dots> \<longleftrightarrow> (of_int (int i) :: rat) * of_int b < of_nat n"
    using assms by (simp add: pos_less_divide_eq)
  also have "\<dots> \<longleftrightarrow> (of_int (int i * b) :: rat) < of_int (int n)"
    by simp
  also have "\<dots> \<longleftrightarrow> int i * b < int n"
    by (simp only: of_int_less_iff)
  finally show ?thesis .
qed

lemma slice_take_drop:
  assumes "0 \<le> a" and "a \<le> c" and "c \<le> int (length xs)"
  shows "slice xs a c = take (nat (c - a)) (drop (nat a) xs)"
proof -
  have k: "(if a < 0 then max (int (length xs) + a) 0 else min a (int (length xs))) = a"
    using assms by simp
  have f: "(if c < 0 then max (int (length xs) + c) 0 else min c (int (length xs))) = c"
    using assms by simp
  have m: "max (c - a) 0 = c - a" using assms by simp
  show ?thesis
    unfolding slice_def Let_def k f m ..
qed

lemma length_batchOf:
  assumes "0 < b" and "int i * b < int (length lines)"
  shows "int (length (batchOf lines (Some b) i)) = min b (int (length lines) - int i * b)"
proof -
  let ?a = "int i * b"
  let ?c = "min (?a + b) (int (length lines))"
  have a0: "0 \<le> ?a" using assms(1) by simp
  have ac: "?a \<le> ?c" using assms by simp
  have cn: "?c \<le> int (length lines)" by simp
  have "batchOf lines (Some b) i = take (nat (?c - ?a)) (drop (nat ?a) lines)"
    unfolding batchOf_def Let_def option.case
    using a0 ac cn by (rule slice_take_drop)
  then have "length (batchOf lines (Some b) i) = min (nat (?c - ?a)) (length lines - nat ?a)"
    by (simp add: min.commute)
  then show ?thesis using assms a0 by linarith
qed

lemma totalBatches_pos:
  assumes "0 < b" and "int n \<le> 2 ^ 52" and "b \<le> 2 ^ 1074"
  shows "jsceil (jsdiv (Fin (of_nat n)) (toNum (Some b)))
         = Fin (of_int \<lceil>(of_nat n :: rat) / of_int b\<rceil>)"
  using ceil_quotient [OF assms] by (simp add: toNum_def)

lemma eventLoop_Nil [simp]: "eventLoop dir e k [] s = Some s"
  by (subst eventLoop.simps) simp

lemma eventLoop_single:
  "eventLoop dir e k [l] s =
     (case clicks dir (actionsAt e k) (s, []) of
        (s1, q1) \<Rightarrow>
          (case processInBatches dir (elapsedAt e (Suc k)) l s1 of
             (s2, None) \<Rightarrow> eventLoop dir e (Suc k) q1 s2
           | (s2, Some l') \<Rightarrow> eventLoop dir e (Suc k) (q1 @ [l']) s2))"
  by (subst eventLoop.simps) simp

lemma processInBatches_exit:
  "\<not> jslt (Fin (of_nat (batchIndex l))) (totalBatches l) \<Longrightarrow>
     processInBatches dir t l s = (finishProcessing s, None)"
  by (simp add: processInBatches_def)

lemma processInBatches_break:
  "processingCancelled s \<Longrightarrow> processInBatches dir t l s = (finishProcessing s, None)"
  by (simp add: processInBatches_def)

lemma processInBatches_step:
  assumes "jslt (Fin (of_nat (batchIndex l))) (totalBatches l)" and "\<not> processingCancelled s"
  shows "\<exists>s2. processInBatches dir t l s = (s2, Some (l\<lparr>batchIndex := Suc (batchIndex l)\<rparr>))
              \<and> processingActive s2 = processingActive s
              \<and> \<not> processingCancelled s2
              \<and> statsTotal s2 = statsTotal s
              \<and> accounted s2
                   = accounted s
                     + length (batchOf (loopLines l) (batchSize (loopOptions l)) (batchIndex l))"
  using assms
  by (simp add: processInBatches_def Let_def processBatch_frame processBatch_accounted)

text \<open>
  With a positive batch size and no restart, a suspended loop runs to its end. It
  accounts for every line unless Cancel is clicked, and never for more lines than there
  are.
\<close>

lemma eventLoop_single_pos:
  fixes lns :: "string list" and options :: options and b :: int
  defines "T \<equiv> Fin (of_int \<lceil>(of_nat (length lns) :: rat) / of_int b\<rceil>)"
  assumes b: "0 < b" and bs: "batchSize options = Some b"
    and nr: "\<forall>k. \<not> restarts (actionsAt e k)"
  shows "processingActive s \<Longrightarrow> \<not> processingCancelled s \<Longrightarrow>
         int (accounted s) = min (int i * b) (int (length lns)) \<Longrightarrow>
         \<exists>s'. eventLoop dir e k
                 [\<lparr>loopLines = lns, loopOptions = options, totalBatches = T, batchIndex = i\<rparr>] s
               = Some s'
              \<and> accounted s' \<le> length lns
              \<and> statsTotal s' = statsTotal s
              \<and> ((\<forall>j. ClickCancel \<notin> set (actionsAt e j)) \<longrightarrow> accounted s' = length lns)"
proof (induction "nat (int (length lns) - int i * b)" arbitrary: i s k rule: less_induct)
  case less
  let ?n = "int (length lns)"
  let ?l = "\<lparr>loopLines = lns, loopOptions = options, totalBatches = T, batchIndex = i\<rparr>"
  have lt: "jslt (Fin (of_nat (batchIndex ?l))) (totalBatches ?l) \<longleftrightarrow> int i * b < ?n"
    using jslt_ceiling [OF b, of i "length lns"] by (simp add: T_def)
  obtain s1 where s1: "clicks dir (actionsAt e k) (s, []) = (s1, [])" "sameAggregate s s1"
    "processingCancelled s1 \<longleftrightarrow> ClickCancel \<in> set (actionsAt e k)"
    "processingActive s1 \<longleftrightarrow> ClickCancel \<notin> set (actionsAt e k)"
    using clicks_no_restart [OF less.prems(1), of "actionsAt e k" dir "[]"] nr less.prems(2)
    by auto
  have same1: "accounted s1 = accounted s" "statsTotal s1 = statsTotal s"
    using sameAggregate_accounted [OF s1(2)] by simp_all
  have le: "accounted s \<le> length lns"
  proof -
    have "int (accounted s) \<le> ?n" using less.prems(3) by simp
    then show ?thesis by simp
  qed
  show ?case
  proof (cases "int i * b < ?n \<and> \<not> processingCancelled s1")
    case False
    have ended: "processInBatches dir (elapsedAt e (Suc k)) ?l s1 = (finishProcessing s1, None)"
    proof (cases "processingCancelled s1")
      case True
      then show ?thesis by (rule processInBatches_break)
    next
      case nc1: False
      then have "\<not> int i * b < ?n" using False by simp
      then have "\<not> jslt (Fin (of_nat (batchIndex ?l))) (totalBatches ?l)" using lt by simp
      then show ?thesis by (rule processInBatches_exit)
    qed
    have res: "eventLoop dir e k [?l] s = Some (finishProcessing s1)"
      by (simp add: eventLoop_single s1(1) ended)
    have full: "accounted s = length lns"
      if "\<forall>j. ClickCancel \<notin> set (actionsAt e j)"
    proof -
      have "\<not> processingCancelled s1" using that s1(3) by simp
      then have "\<not> int i * b < ?n" using False by simp
      then have "int (accounted s) = ?n" using less.prems(3) by linarith
      then show ?thesis by simp
    qed
    show ?thesis using res le same1 full by simp
  next
    case True
    then have go: "int i * b < ?n" and nc1: "\<not> processingCancelled s1" by simp_all
    have act1: "processingActive s1" using nc1 s1(3,4) by simp
    have j: "jslt (Fin (of_nat (batchIndex ?l))) (totalBatches ?l)" using lt go by simp
    obtain s2 where s2:
      "processInBatches dir (elapsedAt e (Suc k)) ?l s1
         = (s2, Some (?l\<lparr>batchIndex := Suc (batchIndex ?l)\<rparr>))"
      "processingActive s2 = processingActive s1" "\<not> processingCancelled s2"
      "statsTotal s2 = statsTotal s1"
      "accounted s2 = accounted s1
         + length (batchOf (loopLines ?l) (batchSize (loopOptions ?l)) (batchIndex ?l))"
      using processInBatches_step [OF j nc1, of dir "elapsedAt e (Suc k)"] by blast
    have len: "int (length (batchOf lns (Some b) i)) = min b (?n - int i * b)"
      using b go by (rule length_batchOf)
    have acc2: "int (accounted s2) = min (int (Suc i) * b) ?n"
      using s2(5) len less.prems(3) go b same1(1) by (simp add: bs min_def algebra_simps)
    have dec: "nat (?n - int (Suc i) * b) < nat (?n - int i * b)"
      using go b by (simp add: algebra_simps)
    have act2: "processingActive s2" using s2(2) act1 by simp
    have "\<exists>s'. eventLoop dir e (Suc k)
                 [\<lparr>loopLines = lns, loopOptions = options, totalBatches = T,
                    batchIndex = Suc i\<rparr>] s2
               = Some s'
              \<and> accounted s' \<le> length lns
              \<and> statsTotal s' = statsTotal s2
              \<and> ((\<forall>j. ClickCancel \<notin> set (actionsAt e j)) \<longrightarrow> accounted s' = length lns)"
      using dec act2 s2(3) acc2 by (rule less.hyps)
    moreover have "eventLoop dir e k [?l] s
          = eventLoop dir e (Suc k)
              [\<lparr>loopLines = lns, loopOptions = options, totalBatches = T,
                 batchIndex = Suc i\<rparr>] s2"
      using s2(1) s1(1) by (simp add: eventLoop_single)
    ultimately show ?thesis using s2(4) same1(2) by simp
  qed
qed

section \<open>A whole run\<close>

lemma split_newline_nonempty: "split_newline cs \<noteq> []"
  by (induction cs) (auto split: list.splits)

lemma startProcessingCall_run:
  assumes "currentFileContent s = Some content" and "content \<noteq> []" and "\<not> processingActive s"
  shows "startProcessingCall dir t options s =
           processInBatches dir t
             \<lparr>loopLines = split_newline content, loopOptions = options,
                totalBatches =
                  jsceil (jsdiv (Fin (of_nat (length (split_newline content))))
                            (toNum (batchSize options))),
                batchIndex = 0\<rparr>
             (initialised content s)"
  using assms
  by (simp add: startProcessingCall_def Let_def resetProcessingState_def initialised_def
      initialResults_def)

lemma initialised_facts [simp]:
  "accounted (initialised content s) = 0"
  "statsTotal (initialised content s) = length (split_newline content)"
  "\<not> processingCancelled (initialised content s)"
  "processingActive (initialised content s)"
  by (simp_all add: initialised_def initialResults_def accounted_def statsTotal_def
      emptyResults_def resetProcessingState_def)

lemma exIdle_startable:
  "currentFileContent (exIdle content) = Some content" "\<not> processingActive (exIdle content)"
  by (simp_all add: exIdle_def)

lemma twoNumbers_lines: "length (split_newline twoNumbers) = 2" "twoNumbers \<noteq> []"
  by (simp_all add: twoNumbers_def)

text \<open>
  Claim C5, amended. A run with a positive batch size, during which the page is not
  restarted (no click on Start after a click on Cancel within one suspension), ends,
  with \<open>stats.total\<close> the number of lines of the input. At its end the valid count, the
  invalid count and the blank lines skipped add up to at most \<open>stats.total\<close>, and to
  exactly \<open>stats.total\<close> when Cancel was never clicked. The bounds on the batch size and
  on the number of lines hold for every double and every array of JavaScript.
\<close>

theorem run_accounting:
  assumes "currentFileContent s = Some content" and "content \<noteq> []"
    and "\<not> processingActive s"
    and "batchSize options = Some b" and "0 < b" and "b < 2 ^ 1024"
    and "length (split_newline content) < 2 ^ 32"
    and "\<forall>k. \<not> restarts (actionsAt e k)"
  shows "\<exists>s'. startProcessing dir e options s = Some s'
           \<and> statsTotal s' = length (split_newline content)
           \<and> accounted s' \<le> statsTotal s'
           \<and> ((\<forall>j. ClickCancel \<notin> set (actionsAt e j)) \<longrightarrow> accounted s' = statsTotal s')"
proof -
  let ?lns = "split_newline content"
  let ?s0 = "initialised content s"
  let ?T = "Fin (of_int \<lceil>(of_nat (length ?lns) :: rat) / of_int b\<rceil>)"
  let ?l = "\<lparr>loopLines = ?lns, loopOptions = options, totalBatches = ?T, batchIndex = 0\<rparr>"
  have n: "0 < length ?lns" using split_newline_nonempty [of content] by simp
  have n52: "int (length ?lns) \<le> 2 ^ 52"
  proof -
    have "int (length ?lns) < 2 ^ 32" using assms(7) by (simp flip: of_nat_less_iff)
    moreover have "(2::int) ^ 32 \<le> 2 ^ 52" by simp
    ultimately show ?thesis by linarith
  qed
  have b1074: "b \<le> 2 ^ 1074"
  proof -
    have "(2::int) ^ 1024 \<le> 2 ^ 1074" by (rule power_increasing) simp_all
    then show ?thesis using assms(6) by linarith
  qed
  have T: "jsceil (jsdiv (Fin (of_nat (length ?lns))) (toNum (batchSize options))) = ?T"
    unfolding assms(4) using assms(5) n52 b1074 by (rule totalBatches_pos)
  have call: "startProcessingCall dir (elapsedAt e 0) options s
              = processInBatches dir (elapsedAt e 0) ?l ?s0"
    using startProcessingCall_run [OF assms(1,2,3)] by (simp add: T)
  have j: "jslt (Fin (of_nat (batchIndex ?l))) (totalBatches ?l)"
    using jslt_ceiling [OF assms(5), of 0 "length ?lns"] n by simp
  obtain s2 where s2:
    "processInBatches dir (elapsedAt e 0) ?l ?s0 = (s2, Some (?l\<lparr>batchIndex := Suc (batchIndex ?l)\<rparr>))"
    "processingActive s2 = processingActive ?s0" "\<not> processingCancelled s2"
    "statsTotal s2 = statsTotal ?s0"
    "accounted s2 = accounted ?s0
       + length (batchOf (loopLines ?l) (batchSize (loopOptions ?l)) (batchIndex ?l))"
    using processInBatches_step [OF j, of ?s0 dir "elapsedAt e 0"] by auto
  have len: "int (length (batchOf ?lns (Some b) 0)) = min b (int (length ?lns) - int 0 * b)"
    using assms(5) n by (intro length_batchOf) simp_all
  have acc2: "int (accounted s2) = min (int (Suc 0) * b) (int (length ?lns))"
    using s2(5) len assms(4,5) by (simp add: min_def)
  have act2: "processingActive s2" using s2(2) by simp
  have "\<exists>s'. eventLoop dir e 0
               [\<lparr>loopLines = ?lns, loopOptions = options, totalBatches = ?T,
                  batchIndex = Suc 0\<rparr>] s2
             = Some s'
            \<and> accounted s' \<le> length ?lns
            \<and> statsTotal s' = statsTotal s2
            \<and> ((\<forall>j. ClickCancel \<notin> set (actionsAt e j)) \<longrightarrow> accounted s' = length ?lns)"
    using assms(5,4,8) act2 s2(3) acc2 by (rule eventLoop_single_pos)
  moreover have "startProcessing dir e options s
        = eventLoop dir e 0
               [\<lparr>loopLines = ?lns, loopOptions = options, totalBatches = ?T,
                  batchIndex = Suc 0\<rparr>] s2"
    by (simp add: startProcessing_def call s2(1))
  ultimately show ?thesis using s2(4) by auto
qed

theorem run_accounting_witness:
  "accounted (the (startProcessing exDirectory neverCancelled (exOptions (Some 1))
                     (exIdle twoNumbers))) = 2
   \<and> statsTotal (the (startProcessing exDirectory neverCancelled (exOptions (Some 1))
                     (exIdle twoNumbers))) = 2
   \<and> startProcessing exDirectory neverCancelled (exOptions (Some 1)) (exIdle twoNumbers) \<noteq> None"
proof -
  have bs: "batchSize (exOptions (Some 1)) = Some 1" by (simp add: exOptions_def)
  have nr: "\<forall>k. \<not> restarts (actionsAt neverCancelled k)" by (simp add: neverCancelled_def)
  have nc: "\<forall>j. ClickCancel \<notin> set (actionsAt neverCancelled j)"
    by (simp add: neverCancelled_def)
  have small: "length (split_newline twoNumbers) < 2 ^ 32" by (simp add: twoNumbers_lines(1))
  obtain s' where
    "startProcessing exDirectory neverCancelled (exOptions (Some 1)) (exIdle twoNumbers) = Some s'"
    "statsTotal s' = length (split_newline twoNumbers)"
    "(\<forall>j. ClickCancel \<notin> set (actionsAt neverCancelled j)) \<longrightarrow> accounted s' = statsTotal s'"
    using run_accounting [OF exIdle_startable(1) twoNumbers_lines(2) exIdle_startable(2) bs _ _
        small nr, of exDirectory]
    by auto
  then show ?thesis using nc twoNumbers_lines(1) by simp
qed

text \<open>
  Claim C5 as stated fails for a run that ends by cancellation: of two lines, with
  batches of one line and Cancel clicked after the first batch, one line is accounted
  for and \<open>stats.total\<close> is 2.
\<close>

theorem cancelled_run_counterexample:
  "accounted (the (startProcessing exDirectory cancelledAfterFirstBatch (exOptions (Some 1))
                     (exIdle twoNumbers))) = 1
   \<and> statsTotal (the (startProcessing exDirectory cancelledAfterFirstBatch (exOptions (Some 1))
                     (exIdle twoNumbers))) = 2"
  by code_simp

text \<open>
  Without the condition on restarts the sum can exceed \<open>stats.total\<close>: with Cancel and
  then Start clicked in the first suspension, \<open>startProcessing\<close> clears
  \<open>processingCancelled\<close>, the first loop resumes and goes on, and both loops feed the new
  aggregate: three valid numbers for a total of two lines.
\<close>

lemma restart_revives_suspended_loop:
  "stats_rec.valid (stats (processedResults (the
      (startProcessing exDirectory restartedAfterCancel (exOptions (Some 1))
         (exIdle twoNumbers))))) = 3
   \<and> statsTotal (the (startProcessing exDirectory restartedAfterCancel (exOptions (Some 1))
                     (exIdle twoNumbers))) = 2"
  by code_simp

text \<open>
  Claim C3. The claim says that the completion callback is not invoked for a cancelled
  run. In a run over two lines, with batches of one line and Cancel clicked after the
  first batch, the alert of \<open>cancelProcessing\<close> is followed by the completion report of
  \<open>finishProcessing\<close>: the loop leaves by \<open>break\<close> and falls through to it.
\<close>

theorem cancelled_run_still_finished:
  "events (the (startProcessing exDirectory cancelledAfterFirstBatch (exOptions (Some 1))
                  (exIdle twoNumbers)))
     = [Progress (Fin 50) 1 (Fin 1), CancelAlert, Finished]
   \<and> processingCancelled (the (startProcessing exDirectory cancelledAfterFirstBatch
                                   (exOptions (Some 1)) (exIdle twoNumbers)))"
  by code_simp

lemma processInBatches_None:
  "processInBatches dir t l s = (s', None) \<Longrightarrow> last (events s') = Finished \<and> \<not> processingActive s'"
  by (auto simp: processInBatches_def Let_def split: if_splits)

text \<open>
  Every run that ends, cancelled or not, restarted or not, ends in \<open>finishProcessing\<close>.
\<close>

lemma eventLoop_ends_finished:
  assumes "eventLoop dir e k q s = Some s'"
  shows "(q = [] \<longrightarrow> last (events s) = Finished \<and> \<not> processingActive s)
         \<longrightarrow> last (events s') = Finished \<and> \<not> processingActive s'"
proof (rule eventLoop.raw_induct
    [where P = "\<lambda>dir e k q s s'.
        (q = [] \<longrightarrow> last (events s) = Finished \<and> \<not> processingActive s)
        \<longrightarrow> last (events s') = Finished \<and> \<not> processingActive s'", OF _ assms])
  fix loop :: "directory \<Rightarrow> env \<Rightarrow> nat \<Rightarrow> loop list \<Rightarrow> gstate \<Rightarrow> gstate option"
  fix dir e k q s y
  assume IH: "\<And>dir e k q s y. loop dir e k q s = Some y \<Longrightarrow>
        (q = [] \<longrightarrow> last (events s) = Finished \<and> \<not> processingActive s)
        \<longrightarrow> last (events y) = Finished \<and> \<not> processingActive y"
  assume body: "(case q of [] \<Rightarrow> Some s
      | l # rest \<Rightarrow>
          case clicks dir (actionsAt e k) (s, rest) of
          (s1, q1) \<Rightarrow>
            case processInBatches dir (elapsedAt e (Suc k)) l s1 of
            (s2, None) \<Rightarrow> loop dir e (Suc k) q1 s2
            | (s2, Some l') \<Rightarrow> loop dir e (Suc k) (q1 @ [l']) s2) = Some y"
  show "(q = [] \<longrightarrow> last (events s) = Finished \<and> \<not> processingActive s)
        \<longrightarrow> last (events y) = Finished \<and> \<not> processingActive y"
  proof (cases q)
    case Nil
    then show ?thesis using body by simp
  next
    case (Cons l rest)
    obtain s1 q1 where c: "clicks dir (actionsAt e k) (s, rest) = (s1, q1)"
      by (cases "clicks dir (actionsAt e k) (s, rest)")
    obtain s2 nxt where p: "processInBatches dir (elapsedAt e (Suc k)) l s1 = (s2, nxt)"
      by (cases "processInBatches dir (elapsedAt e (Suc k)) l s1")
    show ?thesis
    proof (cases nxt)
      case None
      then have call: "loop dir e (Suc k) q1 s2 = Some y"
        using body Cons c p by simp
      have "last (events s2) = Finished \<and> \<not> processingActive s2"
        using p None by (auto dest: processInBatches_None)
      then show ?thesis using IH [OF call] by simp
    next
      case (Some l')
      then have call: "loop dir e (Suc k) (q1 @ [l']) s2 = Some y"
        using body Cons c p by simp
      show ?thesis using IH [OF call] by simp
    qed
  qed
qed

lemma completion_always_reported:
  assumes "currentFileContent s = Some content" and "content \<noteq> []"
    and "\<not> processingActive s"
    and "startProcessing dir e opts s = Some s'"
  shows "last (events s') = Finished \<and> \<not> processingActive s'"
proof -
  obtain s1 nxt where c: "startProcessingCall dir (elapsedAt e 0) opts s = (s1, nxt)"
    by (cases "startProcessingCall dir (elapsedAt e 0) opts s")
  show ?thesis
  proof (cases nxt)
    case None
    then have "s' = s1" using assms(4) c by (simp add: startProcessing_def)
    moreover have "last (events s1) = Finished \<and> \<not> processingActive s1"
      using c None unfolding startProcessingCall_run [OF assms(1,2,3)]
      by (auto dest: processInBatches_None)
    ultimately show ?thesis by simp
  next
    case (Some l)
    then have "eventLoop dir e 0 [l] s1 = Some s'"
      using assms(4) c by (simp add: startProcessing_def)
    then show ?thesis using eventLoop_ends_finished by blast
  qed
qed

lemma completion_always_reported_witness:
  "last (events (the (startProcessing exDirectory cancelledAfterFirstBatch (exOptions (Some 1))
                  (exIdle twoNumbers)))) = Finished
   \<and> CancelAlert \<in> set (events (the (startProcessing exDirectory cancelledAfterFirstBatch
                  (exOptions (Some 1)) (exIdle twoNumbers))))"
proof -
  have r: "startProcessing exDirectory cancelledAfterFirstBatch (exOptions (Some 1))
             (exIdle twoNumbers)
           = Some (the (startProcessing exDirectory cancelledAfterFirstBatch (exOptions (Some 1))
                  (exIdle twoNumbers)))"
    by code_simp
  have c: "CancelAlert \<in> set (events (the (startProcessing exDirectory cancelledAfterFirstBatch
                  (exOptions (Some 1)) (exIdle twoNumbers))))"
    by code_simp
  show ?thesis
    using c completion_always_reported [OF exIdle_startable(1) twoNumbers_lines(2)
        exIdle_startable(2) r]
    by simp
qed

text \<open>
  Claim C8. \<open>startProcessing\<close> called while a run is active returns at once and leaves
  every variable as it was.
\<close>

theorem startProcessing_while_active:
  "processingActive s \<Longrightarrow> startProcessing dir e opts s = Some s"
  by (simp add: startProcessing_def startProcessingCall_def split: option.splits)

theorem startProcessing_while_active_witness:
  "startProcessing exDirectory neverCancelled (exOptions (Some 1))
     ((exIdle twoNumbers)\<lparr>processingActive := True\<rparr>)
   = Some ((exIdle twoNumbers)\<lparr>processingActive := True\<rparr>)"
  using startProcessing_while_active
    [of "(exIdle twoNumbers)\<lparr>processingActive := True\<rparr>" exDirectory neverCancelled
      "exOptions (Some 1)"]
  by simp

section \<open>Batch sizes that are not positive\<close>

lemma no_batch_when_negative:
  assumes "b < 0"
  shows "\<not> jslt (Fin (of_nat i)) (jsceil (jsdiv (Fin (of_nat n)) (toNum (Some b))))"
proof (cases "n = 0")
  case True
  then show ?thesis using assms by (simp add: toNum_def round64_def)
next
  case False
  let ?x = "(of_nat n :: rat) / of_int b"
  have neg: "?x < 0" using False assms by (simp add: divide_pos_neg)
  then have pos: "0 < - ?x" by simp
  have r: "jsdiv (Fin (of_nat n)) (toNum (Some b)) = jsneg (roundPos (- ?x))"
    using assms neg False by (simp add: toNum_def round64_def)
  from roundPos_sign [OF pos] show ?thesis
  proof
    assume "roundPos (- ?x) = PosInf"
    then show ?thesis unfolding r by (simp add: jsneg_def)
  next
    assume "\<exists>r. roundPos (- ?x) = Fin r \<and> 0 \<le> r"
    then obtain r where rp: "roundPos (- ?x) = Fin r" and r0: "0 \<le> r" by blast
    have "\<lceil>- r\<rceil> \<le> 0" using r0 by (simp add: ceiling_le_iff)
    then have "(of_int \<lceil>- r\<rceil> :: rat) \<le> of_nat i"
      by (metis of_int_0 of_int_le_iff of_nat_0_le_iff order_trans)
    then show ?thesis unfolding r rp by (simp add: jsneg_def not_less)
  qed
qed

lemma totalBatches_zero:
  "0 < n \<Longrightarrow> jsceil (jsdiv (Fin (of_nat n)) (toNum (Some 0))) = PosInf"
  by (simp add: toNum_def)

lemma batchOf_zero [simp]: "batchOf lns (Some 0) i = []"
  by (simp add: batchOf_def slice_def)

lemma processInBatches_zero:
  assumes "totalBatches l = PosInf" and "batchSize (loopOptions l) = Some 0"
    and "\<not> processingCancelled s"
  shows "\<exists>s2. processInBatches dir t l s = (s2, Some (l\<lparr>batchIndex := Suc (batchIndex l)\<rparr>))
              \<and> sameAggregate s s2
              \<and> processingActive s2 = processingActive s
              \<and> \<not> processingCancelled s2"
  using assms by (simp add: processInBatches_def Let_def)

lemma no_Cancel_no_restart: "ClickCancel \<notin> set as \<Longrightarrow> \<not> restarts as"
  by (induction as rule: restarts.induct) simp_all

text \<open>
  With batch size zero and no restart, a suspended loop ends at the first suspension
  during which Cancel is clicked, with nothing processed.
\<close>

lemma eventLoop_zero_cancelled:
  assumes bs: "batchSize options = Some 0"
    and nr: "\<forall>k. \<not> restarts (actionsAt e k)"
  shows "ClickCancel \<in> set (actionsAt e (k + d)) \<Longrightarrow>
         processingActive s \<Longrightarrow> \<not> processingCancelled s \<Longrightarrow>
         \<exists>s'. eventLoop dir e k
                 [\<lparr>loopLines = lns, loopOptions = options, totalBatches = PosInf,
                    batchIndex = i\<rparr>] s
               = Some s'
              \<and> sameAggregate s s'
              \<and> processingCancelled s'
              \<and> CancelAlert \<in> set (events s')
              \<and> last (events s') = Finished"
proof (induction d arbitrary: k i s)
  case 0
  let ?l = "\<lparr>loopLines = lns, loopOptions = options, totalBatches = PosInf, batchIndex = i\<rparr>"
  have c: "ClickCancel \<in> set (actionsAt e k)" using 0(1) by simp
  obtain s1 where s1: "clicks dir (actionsAt e k) (s, []) = (s1, [])" "sameAggregate s s1"
    "processingCancelled s1" "CancelAlert \<in> set (events s1)"
    using clicks_no_restart [OF 0(2), of "actionsAt e k" dir "[]"] nr c by auto
  have "processInBatches dir (elapsedAt e (Suc k)) ?l s1 = (finishProcessing s1, None)"
    using s1(3) by (rule processInBatches_break)
  then have res: "eventLoop dir e k [?l] s = Some (finishProcessing s1)"
    by (simp add: eventLoop_single s1(1))
  have "sameAggregate s (finishProcessing s1)"
    using sameAggregate_trans [OF s1(2) finishProcessing_frame(6)] .
  then show ?case using res s1(3,4) by simp
next
  case (Suc d)
  let ?l = "\<lparr>loopLines = lns, loopOptions = options, totalBatches = PosInf, batchIndex = i\<rparr>"
  show ?case
  proof (cases "ClickCancel \<in> set (actionsAt e k)")
    case True
    obtain s1 where s1: "clicks dir (actionsAt e k) (s, []) = (s1, [])" "sameAggregate s s1"
      "processingCancelled s1" "CancelAlert \<in> set (events s1)"
      using clicks_no_restart [OF Suc.prems(2), of "actionsAt e k" dir "[]"] nr True by auto
    have "processInBatches dir (elapsedAt e (Suc k)) ?l s1 = (finishProcessing s1, None)"
      using s1(3) by (rule processInBatches_break)
    then have res: "eventLoop dir e k [?l] s = Some (finishProcessing s1)"
      by (simp add: eventLoop_single s1(1))
    have "sameAggregate s (finishProcessing s1)"
      using sameAggregate_trans [OF s1(2) finishProcessing_frame(6)] .
    then show ?thesis using res s1(3,4) by simp
  next
    case False
    obtain s1 where s1: "clicks dir (actionsAt e k) (s, []) = (s1, [])" "sameAggregate s s1"
      "\<not> processingCancelled s1" "processingActive s1"
      using clicks_no_restart [OF Suc.prems(2), of "actionsAt e k" dir "[]"] nr False
        Suc.prems(3)
      by auto
    obtain s2 where s2:
      "processInBatches dir (elapsedAt e (Suc k)) ?l s1
         = (s2, Some (?l\<lparr>batchIndex := Suc (batchIndex ?l)\<rparr>))"
      "sameAggregate s1 s2" "processingActive s2 = processingActive s1"
      "\<not> processingCancelled s2"
      using processInBatches_zero [of ?l s1 dir "elapsedAt e (Suc k)"] bs s1(3) by auto
    have later: "ClickCancel \<in> set (actionsAt e (Suc k + d))" using Suc.prems(1) by simp
    have act2: "processingActive s2" using s2(3) s1(4) by simp
    obtain s' where s':
      "eventLoop dir e (Suc k)
         [\<lparr>loopLines = lns, loopOptions = options, totalBatches = PosInf,
            batchIndex = Suc i\<rparr>] s2 = Some s'"
      "sameAggregate s2 s'" "processingCancelled s'" "CancelAlert \<in> set (events s')"
      "last (events s') = Finished"
      using Suc.IH [OF later act2 s2(4), of "Suc i"] by blast
    have "eventLoop dir e k [?l] s = Some s'"
      using s2(1) s1(1) s'(1) by (simp add: eventLoop_single)
    moreover have "sameAggregate s s'"
      using sameAggregate_trans [OF s1(2) sameAggregate_trans [OF s2(2) s'(2)]] .
    ultimately show ?thesis using s'(3,4,5) by simp
  qed
qed

text \<open>With batch size zero and no click on Cancel, a suspended loop never ends.\<close>

lemma eventLoop_zero_diverges:
  assumes "eventLoop dir e k q s = Some s'"
  shows "\<not> ((\<forall>j. ClickCancel \<notin> set (actionsAt e j))
            \<and> processingActive s \<and> \<not> processingCancelled s
            \<and> (\<exists>l. q = [l] \<and> totalBatches l = PosInf \<and> batchSize (loopOptions l) = Some 0))"
proof (rule eventLoop.raw_induct
    [where P = "\<lambda>dir e k q s s'.
        \<not> ((\<forall>j. ClickCancel \<notin> set (actionsAt e j))
            \<and> processingActive s \<and> \<not> processingCancelled s
            \<and> (\<exists>l. q = [l] \<and> totalBatches l = PosInf \<and> batchSize (loopOptions l) = Some 0))",
      OF _ assms])
  fix loop :: "directory \<Rightarrow> env \<Rightarrow> nat \<Rightarrow> loop list \<Rightarrow> gstate \<Rightarrow> gstate option"
  fix dir e k q s y
  assume IH: "\<And>dir e k q s y. loop dir e k q s = Some y \<Longrightarrow>
        \<not> ((\<forall>j. ClickCancel \<notin> set (actionsAt e j))
            \<and> processingActive s \<and> \<not> processingCancelled s
            \<and> (\<exists>l. q = [l] \<and> totalBatches l = PosInf \<and> batchSize (loopOptions l) = Some 0))"
  assume body: "(case q of [] \<Rightarrow> Some s
      | l # rest \<Rightarrow>
          case clicks dir (actionsAt e k) (s, rest) of
          (s1, q1) \<Rightarrow>
            case processInBatches dir (elapsedAt e (Suc k)) l s1 of
            (s2, None) \<Rightarrow> loop dir e (Suc k) q1 s2
            | (s2, Some l') \<Rightarrow> loop dir e (Suc k) (q1 @ [l']) s2) = Some y"
  show "\<not> ((\<forall>j. ClickCancel \<notin> set (actionsAt e j))
            \<and> processingActive s \<and> \<not> processingCancelled s
            \<and> (\<exists>l. q = [l] \<and> totalBatches l = PosInf \<and> batchSize (loopOptions l) = Some 0))"
  proof
    assume a: "(\<forall>j. ClickCancel \<notin> set (actionsAt e j))
            \<and> processingActive s \<and> \<not> processingCancelled s
            \<and> (\<exists>l. q = [l] \<and> totalBatches l = PosInf \<and> batchSize (loopOptions l) = Some 0)"
    then obtain l where l: "q = [l]" "totalBatches l = PosInf"
      "batchSize (loopOptions l) = Some 0" by blast
    have nc: "ClickCancel \<notin> set (actionsAt e k)" using a by simp
    then have nr: "\<not> restarts (actionsAt e k)" by (rule no_Cancel_no_restart)
    have act: "processingActive s" using a by simp
    obtain s1 where s1: "clicks dir (actionsAt e k) (s, []) = (s1, [])"
      "\<not> processingCancelled s1" "processingActive s1"
      using clicks_no_restart [OF act nr, of dir "[]"] nc a by auto
    obtain s2 where s2:
      "processInBatches dir (elapsedAt e (Suc k)) l s1
         = (s2, Some (l\<lparr>batchIndex := Suc (batchIndex l)\<rparr>))"
      "processingActive s2 = processingActive s1" "\<not> processingCancelled s2"
      using processInBatches_zero [OF l(2,3) s1(2), of dir "elapsedAt e (Suc k)"] by auto
    have call: "loop dir e (Suc k) [l\<lparr>batchIndex := Suc (batchIndex l)\<rparr>] s2 = Some y"
      using body l(1) s1(1) s2(1) by simp
    show False using IH [OF call] a s1(3) s2(2,3) l(2,3) by simp
  qed
qed




section \<open>Summary report\<close>

lemma sortedStates_descending:
  "sorted_wrt (\<lambda>a b. length (snd b) \<le> length (snd a)) (sortedStates m)"
proof -
  have "sorted (map (\<lambda>(label, numbers). - int (length numbers)) (sortedStates m))"
    unfolding sortedStates_def by (rule sorted_sort_key)
  then show ?thesis
    by (simp add: sorted_map case_prod_unfold)
qed

lemma sortedStates_stable:
  "filter (\<lambda>en. length (snd en) = k) (sortedStates m) = filter (\<lambda>en. length (snd en) = k) m"
proof -
  have eq: "(\<lambda>en :: string \<times> phone_result list. length (snd en) = k)
            = (\<lambda>en. (case en of (label, numbers) \<Rightarrow> - int (length numbers)) = - int k)"
    by (auto simp: fun_eq_iff)
  show ?thesis
    unfolding sortedStates_def eq by (rule sort_key_stable)
qed

text \<open>
  The quotient of a count by a positive count, times 100, is a finite double that is not
  negative, and at most 100 when the first count is at most the second.
\<close>

lemma percentage_value:
  assumes "0 < v" and "k < 2 ^ 32"
  shows "\<exists>a. jsmul (jsdiv (Fin (of_nat k)) (Fin (of_nat v))) (Fin 100) = Fin a
              \<and> 0 \<le> a \<and> (k \<le> v \<longrightarrow> a \<le> 100)"
proof (cases "k = 0")
  case True
  then show ?thesis using assms(1) by (simp add: round64_def)
next
  case nz: False
  let ?x = "(of_nat k :: rat) / of_nat v"
  have x0: "0 < ?x" using nz assms(1) by simp
  have v1: "(1::rat) \<le> of_nat v" using assms(1) by simp
  have xk: "?x \<le> of_int (int k)"
  proof -
    have "?x \<le> of_nat k / 1" using v1 by (intro divide_left_mono) simp_all
    then show ?thesis by simp
  qed
  have k32: "int k < 2 ^ 32" using assms(2) by (simp flip: of_nat_less_iff)
  have k52: "int k \<le> 2 ^ 52"
  proof -
    have "(2::int) ^ 32 \<le> 2 ^ 52" by simp
    then show ?thesis using k32 by linarith
  qed
  obtain r where r: "roundPos ?x = Fin r" "0 \<le> r" "r \<le> of_int (int k)"
    using roundPos_le_int [OF x0 xk k52] by blast
  have r1: "r \<le> 1" if "k \<le> v"
  proof -
    have "?x \<le> of_int 1" using that assms(1) by simp
    then obtain r' where "roundPos ?x = Fin r'" "r' \<le> of_int 1"
      using roundPos_le_int [OF x0, of 1] by auto
    then show ?thesis using r(1) by simp
  qed
  have d: "jsdiv (Fin (of_nat k)) (Fin (of_nat v)) = Fin r"
    using assms(1) x0 r(1) nz by (simp add: round64_def)
  show ?thesis
  proof (cases "r = 0")
    case True
    then show ?thesis unfolding d by (simp add: round64_def)
  next
    case False
    then have y0: "0 < r * 100" using r(2) by simp
    have yk: "r * 100 \<le> of_int (int k * 100)" using r(3) by simp
    have k100: "int k * 100 \<le> 2 ^ 52"
    proof -
      have "int k * 100 \<le> 2 ^ 32 * 100" using k32 by simp
      also have "\<dots> \<le> (2::int) ^ 52" by simp
      finally show ?thesis .
    qed
    obtain a where a: "roundPos (r * 100) = Fin a" "0 \<le> a"
      using roundPos_le_int [OF y0 yk k100] by blast
    have a100: "a \<le> 100" if "k \<le> v"
    proof -
      have "r * 100 \<le> of_int 100" using r1 [OF that] by simp
      then obtain a' where "roundPos (r * 100) = Fin a'" "a' \<le> of_int 100"
        using roundPos_le_int [OF y0, of 100] by auto
      then show ?thesis using a(1) by simp
    qed
    have "jsmul (Fin r) (Fin 100) = Fin a" using y0 a(1) by (simp add: round64_def)
    then show ?thesis unfolding d using a(2) a100 by simp
  qed
qed

lemma toString_digit: "n < 10 \<Longrightarrow> toString n = [char_of (48 + n)]"
  by (subst toString.simps) simp

lemma toFixed1_Fin:
  assumes "0 \<le> a"
  shows "toFixed1 (Fin a) =
           toString (nat \<lfloor>a * 10 + 1 / 2\<rfloor> div 10) @ ''.''
           @ [char_of (48 + nat \<lfloor>a * 10 + 1 / 2\<rfloor> mod 10)]"
proof -
  have "toString (nat \<lfloor>a * 10 + 1 / 2\<rfloor> mod 10)
        = [char_of (48 + nat \<lfloor>a * 10 + 1 / 2\<rfloor> mod 10)]"
    by (rule toString_digit) simp
  then show ?thesis using assms by (simp add: toFixed1_def Let_def abs_of_nonneg)
qed

lemma percentage_one_decimal:
  assumes "0 < v" and "k < 2 ^ 32"
  shows "\<exists>n. percentage k v = toString (n div 10) @ ''.'' @ [char_of (48 + n mod 10)]
              \<and> (k \<le> v \<longrightarrow> n \<le> 1000)"
proof -
  obtain a where a: "jsmul (jsdiv (Fin (of_nat k)) (Fin (of_nat v))) (Fin 100) = Fin a"
    "0 \<le> a" "k \<le> v \<longrightarrow> a \<le> 100"
    using percentage_value [OF assms] by blast
  let ?n = "nat \<lfloor>a * 10 + 1 / 2\<rfloor>"
  have "percentage k v = toString (?n div 10) @ ''.'' @ [char_of (48 + ?n mod 10)]"
    unfolding percentage_def a(1) using a(2) by (rule toFixed1_Fin)
  moreover have "?n \<le> 1000" if "k \<le> v"
  proof -
    have "a * 10 + 1 / 2 < 1001" using a(3) that by simp
    then have "\<lfloor>a * 10 + 1 / 2\<rfloor> < 1001" by (subst floor_less_iff) simp
    then show ?thesis by linarith
  qed
  ultimately show ?thesis by blast
qed

text \<open>
  Claim C6, amended. The state lines of the report are in descending order of record
  count; states with equal counts keep the order in which they first appeared in the
  input (the sort is stable and compares counts only). Each line is the state name padded
  to 20 characters, a colon, the count padded to 8 characters and the percentage in
  parentheses. The percentage of a count in a positive valid count is printed with one
  decimal place: the digits of an integer, a point and one digit, at most \<open>100.0\<close> for a
  count that is at most the valid count.
\<close>

theorem report_order_and_format:
  "sorted_wrt (\<lambda>a b. length (snd b) \<le> length (snd a)) (sortedStates (byState pr))
   \<and> (\<forall>k. filter (\<lambda>en. length (snd en) = k) (sortedStates (byState pr))
           = filter (\<lambda>en. length (snd en) = k) (byState pr))
   \<and> stateLines pr =
       map (\<lambda>(label, numbers).
              label @ replicate (20 - length label) CHR '' '' @ '': ''
              @ replicate (8 - length (toString (length numbers))) CHR '' ''
              @ toString (length numbers)
              @ '' ('' @ percentage (length numbers) (stats_rec.valid (stats pr)) @ ''%)''
              @ [CHR 0x0A])
           (sortedStates (byState pr))
   \<and> (\<forall>k v. 0 < v \<longrightarrow> k < 2 ^ 32 \<longrightarrow>
         (\<exists>n. percentage k v = toString (n div 10) @ ''.'' @ [char_of (48 + n mod 10)]
              \<and> (k \<le> v \<longrightarrow> n \<le> 1000)))"
proof (intro conjI allI impI)
  show "sorted_wrt (\<lambda>a b. length (snd b) \<le> length (snd a)) (sortedStates (byState pr))"
    by (rule sortedStates_descending)
next
  fix k
  show "filter (\<lambda>en. length (snd en) = k) (sortedStates (byState pr))
        = filter (\<lambda>en. length (snd en) = k) (byState pr)"
    by (rule sortedStates_stable)
next
  have line: "stateLine v =
          (\<lambda>(label, numbers).
              label @ replicate (20 - length label) CHR '' '' @ '': ''
              @ replicate (8 - length (toString (length numbers))) CHR '' ''
              @ toString (length numbers)
              @ '' ('' @ percentage (length numbers) v @ ''%)'' @ [CHR 0x0A])" for v
    by (simp add: fun_eq_iff stateLine_def padEnd_def padStart_def)
  show "stateLines pr =
       map (\<lambda>(label, numbers).
              label @ replicate (20 - length label) CHR '' '' @ '': ''
              @ replicate (8 - length (toString (length numbers))) CHR '' ''
              @ toString (length numbers)
              @ '' ('' @ percentage (length numbers) (stats_rec.valid (stats pr)) @ ''%)''
              @ [CHR 0x0A])
           (sortedStates (byState pr))"
    unfolding stateLines_def line ..
next
  fix k v :: nat
  assume "0 < v" and "k < 2 ^ 32"
  then show "\<exists>n. percentage k v = toString (n div 10) @ ''.'' @ [char_of (48 + n mod 10)]
              \<and> (k \<le> v \<longrightarrow> n \<le> 1000)"
    by (rule percentage_one_decimal)
qed

theorem report_order_and_format_witness:
  "(\<exists>n. percentage 1 3 = toString (n div 10) @ ''.'' @ [char_of (48 + n mod 10)] \<and> n \<le> 1000)
   \<and> percentage 1 3 = ''33.3''
   \<and> percentage 1 16 = ''6.3''
   \<and> percentage 2 2 = ''100.0''"
proof -
  have h: "(0::nat) < 3" "(1::nat) < 2 ^ 32" "(1::nat) \<le> 3" by simp_all
  have c: "percentage 1 3 = ''33.3''" "percentage 1 16 = ''6.3''" "percentage 2 2 = ''100.0''"
    by code_simp+
  show ?thesis using h c report_order_and_format [of emptyResults] by blast
qed

text \<open>
  Claim C6 as stated fails on ties: a Texas number followed by an Ohio number gives two
  states with one record each, and the report lists Texas before Ohio.
\<close>

theorem report_ties_counterexample:
  "map fst (sortedStates (byState (processedResults (the
       (startProcessing exDirectory neverCancelled (exOptions (Some 1)) (exIdle twoNumbers))))))
     = [''Texas'', ''Ohio'']
   \<and> map (length \<circ> snd) (sortedStates (byState (processedResults (the
       (startProcessing exDirectory neverCancelled (exOptions (Some 1)) (exIdle twoNumbers))))))
     = [1, 1]
   \<and> ''Ohio'' < ''Texas''
   \<and> stateLines (processedResults (the
       (startProcessing exDirectory neverCancelled (exOptions (Some 1)) (exIdle twoNumbers))))
     = [''Texas               :        1 (50.0%)'' @ [CHR 0x0A],
        ''Ohio                :        1 (50.0%)'' @ [CHR 0x0A]]"
  by code_simp

section \<open>Time remaining\<close>

text \<open>
  Claim C7, amended. The estimate has no guard. With no record processed the displayed
  value is \<open>Infinity\<close> (\<open>NaN\<close> when no time has elapsed or the total is 0); with
  records processed and no time elapsed it is 0; otherwise it is \<open>Math.round\<close> of the
  double that the two divisions of doubles give (3, not 4, for 18 of 27 records in 7
  seconds).
\<close>

theorem remaining_unguarded:
  assumes "0 \<le> elapsed"
  shows "jsround (remainingSeconds tot processed elapsed) =
     (if processed = 0 then (if elapsed = 0 \<or> tot = 0 then NaN else PosInf)
      else if elapsed = 0 then Fin 0
      else jsround (jsdiv (Fin (of_nat tot - of_nat processed))
                      (round64 (of_nat processed / elapsed))))"
  using assms by (simp add: remainingSeconds_def round64_def floor_eq_iff)

theorem remaining_unguarded_witness:
  "jsround (remainingSeconds 2 0 1) = PosInf
   \<and> jsround (remainingSeconds 2 0 0) = NaN
   \<and> jsround (remainingSeconds 2 1 0) = Fin 0
   \<and> jsround (remainingSeconds 3 1 3) = Fin 6
   \<and> jsround (remainingSeconds 27 18 7) = Fin 3"
proof -
  have a: "jsround (jsdiv (Fin (of_nat 3 - of_nat 1)) (round64 (of_nat 1 / 3))) = Fin 6"
    by code_simp
  have b: "jsround (jsdiv (Fin (of_nat 27 - of_nat 18)) (round64 (of_nat 18 / 7))) = Fin 3"
    by code_simp
  show ?thesis
    using a b remaining_unguarded [of 1 2 0] remaining_unguarded [of 0 2 0]
      remaining_unguarded [of 0 2 1] remaining_unguarded [of 3 3 1]
      remaining_unguarded [of 7 27 18]
    by simp
qed

text \<open>
  Claim C7 as stated fails in a run whose first batch is a blank line: the first
  progress update shows \<open>Infinity\<close> seconds remaining.
\<close>

theorem remaining_counterexample:
  "events (the (startProcessing exDirectory neverCancelled (exOptions (Some 1))
                  (exIdle blankThenNumber)))
     = [Progress (Fin 50) 0 PosInf, Progress (Fin 100) 1 (Fin 1), Finished]
   \<and> jsround (remainingSeconds 2 0 0) = NaN"
  by code_simp

end
